theory Spec2Isabelle
  imports Main
begin

section \<open>Output file names\<close>

text \<open>
  \<^verbatim>\<open>jpeg_filename = os.path.join(output_folder, f"{i:05d}.jpg")\<close>

  The format specification \<^verbatim>\<open>05d\<close> prints a Python integer in decimal, padded with
  zeros to a minimum width of five characters; the padding goes between the sign and the
  digits, and the sign counts towards the width.
\<close>

definition digit_char :: "nat \<Rightarrow> char" where
  "digit_char d = char_of (48 + d)"

function dec :: "nat \<Rightarrow> string" where
  "dec n = (if n < 10 then [digit_char n] else dec (n div 10) @ [digit_char (n mod 10)])"
  by pat_completeness auto
termination
  by (relation "measure id") auto

definition zero_pad :: "nat \<Rightarrow> string \<Rightarrow> string" where
  "zero_pad w s = replicate (w - length s) CHR ''0'' @ s"

definition fmt05d :: "int \<Rightarrow> string" where
  "fmt05d i =
     (if i < 0 then CHR ''-'' # zero_pad 4 (dec (nat (- i))) else zero_pad 5 (dec (nat i)))"

text \<open>\<^verbatim>\<open>posixpath.join\<close> with two arguments.\<close>

definition path_join :: "string \<Rightarrow> string \<Rightarrow> string" where
  "path_join a b =
     (if b \<noteq> [] \<and> hd b = CHR ''/'' then b
      else if a = [] \<or> last a = CHR ''/'' then a @ b
      else a @ CHR ''/'' # b)"

definition jpeg_filename :: "string \<Rightarrow> int \<Rightarrow> string" where
  "jpeg_filename output_folder i = path_join output_folder (fmt05d i @ ''.jpg'')"

text \<open>Reading a string of decimal digits back, used to show that names do not collide.\<close>

definition digit_val :: "char \<Rightarrow> nat" where
  "digit_val c = of_char c - 48"

definition undec :: "string \<Rightarrow> nat" where
  "undec s = foldl (\<lambda>a c. 10 * a + digit_val c) 0 s"

section \<open>The conversion as a system of threads\<close>

text \<open>
  The program runs one main thread (\<^verbatim>\<open>tiff2jpeg\<close>) and, through the thread pool, one
  call of \<^verbatim>\<open>save_frame_shared\<close> per frame. The model is an interleaving semantics: a
  state holds the program counter of the main thread, the state of every submitted call,
  the shared image object (open flag and frame cursor), the lock, the progress bar and the
  file system; a step is one statement of one thread. Library calls (\<^verbatim>\<open>os.makedirs\<close>,
  \<^verbatim>\<open>Image.open\<close>, \<^verbatim>\<open>n_frames\<close>, \<^verbatim>\<open>seek\<close>, \<^verbatim>\<open>convert\<close>, \<^verbatim>\<open>save\<close>) are atomic steps
  whose outcome is fixed by the environment record; \<^verbatim>\<open>threading.Lock\<close> and \<^verbatim>\<open>ThreadPoolExecutor\<close>
  follow the Python library: a lock is free or held, acquiring a held lock blocks, a
  \<^verbatim>\<open>with lock\<close> block releases on every exit, a pool runs at most \<^verbatim>\<open>max_workers\<close>
  calls at a time, stores an exception of a call in its future, and waits for all calls
  when its \<^verbatim>\<open>with\<close> block is left.
\<close>

type_synonym raw_page = "nat list"
type_synonym frame = "nat list"
type_synonym bytes = "nat list"

text \<open>
  The source raises nothing by itself; every failure is an exception of a library call.
  They are named after what failed: \<^verbatim>\<open>os.makedirs\<close>; \<^verbatim>\<open>Image.open\<close>; \<^verbatim>\<open>img.n_frames\<close>; a
  seek or decode of a frame; any use of the image after it was closed; in
  \<^verbatim>\<open>frame.save\<close>, the opening of the output file for writing; and, after that, the
  encoding and writing of the JPEG.
\<close>

datatype error = OutputDirError | OpenError | FrameCountError | PageReadError | HandleClosed
  | WriteError | EncodeError

text \<open>
  What the program finds around it: the argument \<^verbatim>\<open>output_folder\<close>; whether
  \<^verbatim>\<open>os.makedirs(output_folder, exist_ok=True)\<close> succeeds; whether the file at
  \<^verbatim>\<open>tiff_path\<close> is a TIFF container (no statement of the program looks at that); what
  \<^verbatim>\<open>Image.open(tiff_path)\<close> finds (nothing it can open, or the frames of the image);
  whether \<^verbatim>\<open>img.n_frames\<close> can be read on the opened image (it raises on an image whose
  format has no frame count, and on a damaged frame directory); the decoder behind
  \<^verbatim>\<open>img.convert("RGB")\<close> (a frame that does not decode raises); which paths
  \<^verbatim>\<open>frame.save\<close> can open for writing; the JPEG encoder and writer behind \<^verbatim>\<open>frame.save\<close>
  (\<open>Inr\<close> the bytes of the file, or \<open>Inl\<close> the bytes that had been written when it
  raised); the size of the pool that \<^verbatim>\<open>ThreadPoolExecutor()\<close> picks; the files and the
  folder that exist before the call. \<^verbatim>\<open>executor.submit\<close> and \<^verbatim>\<open>pbar.update\<close> are taken not
  to raise.
\<close>

record env =
  output_folder :: string
  makedirs_ok :: bool
  is_tiff :: bool
  tiff :: "raw_page list option"
  n_frames_ok :: bool
  convert_rgb :: "raw_page \<Rightarrow> frame option"
  encode_jpeg :: "frame \<Rightarrow> bytes + bytes"
  write_ok :: "string \<Rightarrow> bool"
  max_workers :: nat
  files0 :: "string \<rightharpoonup> bytes"
  dir0 :: bool

definition pages :: "env \<Rightarrow> raw_page list" where
  "pages e = (case tiff e of None \<Rightarrow> [] | Some ps \<Rightarrow> ps)"

text \<open>
  The states of one call \<^verbatim>\<open>save_frame_shared(img, i, output_folder, lock)\<close>:
  waiting in the pool's queue; at \<^verbatim>\<open>with lock\<close> (line 18); at \<^verbatim>\<open>img.seek(i)\<close> (line 19);
  at \<^verbatim>\<open>img.convert("RGB")\<close> (line 20); leaving the \<^verbatim>\<open>with\<close> block, with the exception
  raised in it or the frame; at \<^verbatim>\<open>frame.save\<close> (line 21); returned; failed.
\<close>

datatype job = Queued | Acquire | Seek | Convert | Release "error + frame" | Save frame
  | Done | Failed error

text \<open>
  The program counter of \<^verbatim>\<open>tiff2jpeg\<close>: lines 31, 34, 35 (with 38, 41 and 42, which only
  create the lock, the bar and the pool), 44, 47-48, the exit of the pool's \<^verbatim>\<open>with\<close>
  block, the exit of the image's \<^verbatim>\<open>with\<close> block, and the two ways the call ends.
\<close>

datatype mpc = MakeDirs | Open | NFrames | Submit | Update nat | Shutdown | CloseImg
  | Returned | Raised error

text \<open>
  The state: the program counter of \<^verbatim>\<open>tiff2jpeg\<close>; the file system (whether the output
  folder exists, and the content of every path); the shared image \<^verbatim>\<open>img\<close> (open or
  closed, and the frame its cursor stands on), with counters of how often an image was
  opened and closed; \<^verbatim>\<open>total_frames\<close>; the lock (free, or the index of the call that
  holds it); the list \<^verbatim>\<open>futures\<close>, call \<open>i\<close> being the one submitted for frame \<open>i\<close>; the
  count of the progress bar.
\<close>

record state =
  pc :: mpc
  dir_exists :: bool
  files :: "string \<rightharpoonup> bytes"
  img_open :: bool
  cursor :: nat
  opens :: nat
  closes :: nat
  total_frames :: nat
  lock :: "nat option"
  futures :: "job list"
  pbar :: nat

definition init :: "env \<Rightarrow> state" where
  "init e = \<lparr>pc = MakeDirs, dir_exists = dir0 e, files = files0 e, img_open = False,
     cursor = 0, opens = 0, closes = 0, total_frames = 0, lock = None, futures = [],
     pbar = 0\<rparr>"

fun in_section :: "job \<Rightarrow> bool" where
  "in_section Seek = True"
| "in_section Convert = True"
| "in_section (Release r) = True"
| "in_section j = False"

fun finished :: "job \<Rightarrow> bool" where
  "finished Done = True"
| "finished (Failed e) = True"
| "finished j = False"

text \<open>The number of submitted calls that have ended.\<close>

definition completed :: "state \<Rightarrow> nat" where
  "completed s = length (filter finished (futures s))"

fun active :: "job \<Rightarrow> bool" where
  "active Queued = False"
| "active Done = False"
| "active (Failed e) = False"
| "active j = True"

definition set_job :: "nat \<Rightarrow> job \<Rightarrow> state \<Rightarrow> state" where
  "set_job j x s = s\<lparr>futures := (futures s)[j := x]\<rparr>"

text \<open>
  One step of call \<open>i\<close>; \<open>None\<close> when it cannot step (it waits for a free worker or for
  the lock, or it has ended). A worker takes a queued call when fewer than
  \<^verbatim>\<open>max_workers\<close> calls are running (any queued call, not only the oldest: more schedules
  than the pool's queue allows). \<^verbatim>\<open>img.seek(i)\<close> moves the shared cursor;
  \<^verbatim>\<open>img.convert("RGB")\<close> decodes the frame the shared cursor stands on, whichever call
  moved it there, into a frame of the call's own. An exception inside \<^verbatim>\<open>with lock\<close>
  passes through the exit of the block, which frees the lock, and ends the call; the pool
  keeps it in the future. \<^verbatim>\<open>frame.save(jpeg_filename, "JPEG")\<close> notes whether the path
  exists, opens it for writing (which empties a file that is there), encodes and writes;
  when the encoder or the writing raises, it removes the file if the path did not exist
  before and leaves what was written otherwise.
\<close>

definition save_frame_shared :: "env \<Rightarrow> nat \<Rightarrow> state \<Rightarrow> state option" where
  "save_frame_shared e i s =
     (if length (futures s) \<le> i then None
      else case futures s ! i of
        Queued \<Rightarrow>
          if length (filter active (futures s)) < max_workers e
          then Some (set_job i Acquire s) else None
      | Acquire \<Rightarrow>
          if lock s = None then Some (set_job i Seek (s\<lparr>lock := Some i\<rparr>)) else None
      | Seek \<Rightarrow>
          if \<not> img_open s then Some (set_job i (Release (Inl HandleClosed)) s)
          else if i < length (pages e) then Some (set_job i Convert (s\<lparr>cursor := i\<rparr>))
          else Some (set_job i (Release (Inl PageReadError)) s)
      | Convert \<Rightarrow>
          if \<not> img_open s then Some (set_job i (Release (Inl HandleClosed)) s)
          else if cursor s < length (pages e) then
            (case convert_rgb e (pages e ! cursor s) of
               None \<Rightarrow> Some (set_job i (Release (Inl PageReadError)) s)
             | Some f \<Rightarrow> Some (set_job i (Release (Inr f)) s))
          else Some (set_job i (Release (Inl PageReadError)) s)
      | Release r \<Rightarrow>
          Some (set_job i (case r of Inl x \<Rightarrow> Failed x | Inr f \<Rightarrow> Save f) (s\<lparr>lock := None\<rparr>))
      | Save f \<Rightarrow>
          if \<not> (dir_exists s \<and> write_ok e (jpeg_filename (output_folder e) (int i)))
          then Some (set_job i (Failed WriteError) s)
          else
            (case encode_jpeg e f of
               Inr b \<Rightarrow>
                 Some (set_job i Done
                   (s\<lparr>files := (files s)(jpeg_filename (output_folder e) (int i) \<mapsto> b)\<rparr>))
             | Inl part \<Rightarrow>
                 Some (set_job i (Failed EncodeError)
                   (s\<lparr>files :=
                      (if files s (jpeg_filename (output_folder e) (int i)) = None then files s
                       else (files s)(jpeg_filename (output_folder e) (int i) \<mapsto> part))\<rparr>)))
      | Done \<Rightarrow> None
      | Failed x \<Rightarrow> None)"

text \<open>
  One step of the main thread; \<open>None\<close> when it waits for the pool or has ended. The list
  comprehension submits one call per index of \<^verbatim>\<open>range(total_frames)\<close>; the loop
  \<^verbatim>\<open>for _ in futures: pbar.update(1)\<close> reads no future; leaving the pool's \<^verbatim>\<open>with\<close> block
  waits until every submitted call has ended; leaving the image's block closes the image.
  The function has no \<^verbatim>\<open>return\<close> statement. An exception of \<^verbatim>\<open>os.makedirs\<close> or
  \<^verbatim>\<open>Image.open\<close> ends the call before either block is entered; an exception of
  \<^verbatim>\<open>img.n_frames\<close> leaves the image's block, which closes the image, and ends the call
  before the pool exists.
\<close>

definition tiff2jpeg :: "env \<Rightarrow> state \<Rightarrow> state option" where
  "tiff2jpeg e s =
     (case pc s of
        MakeDirs \<Rightarrow>
          if makedirs_ok e then Some (s\<lparr>dir_exists := True, pc := Open\<rparr>)
          else Some (s\<lparr>pc := Raised OutputDirError\<rparr>)
      | Open \<Rightarrow>
          (case tiff e of
             None \<Rightarrow> Some (s\<lparr>pc := Raised OpenError\<rparr>)
           | Some ps \<Rightarrow> Some (s\<lparr>img_open := True, cursor := 0, opens := opens s + 1, pc := NFrames\<rparr>))
      | NFrames \<Rightarrow>
          if n_frames_ok e then Some (s\<lparr>total_frames := length (pages e), pc := Submit\<rparr>)
          else Some (s\<lparr>img_open := False, closes := closes s + 1, pc := Raised FrameCountError\<rparr>)
      | Submit \<Rightarrow>
          if length (futures s) < total_frames s then Some (s\<lparr>futures := futures s @ [Queued]\<rparr>)
          else Some (s\<lparr>pc := Update 0\<rparr>)
      | Update k \<Rightarrow>
          if k < length (futures s) then Some (s\<lparr>pbar := pbar s + 1, pc := Update (k + 1)\<rparr>)
          else Some (s\<lparr>pc := Shutdown\<rparr>)
      | Shutdown \<Rightarrow> if list_all finished (futures s) then Some (s\<lparr>pc := CloseImg\<rparr>) else None
      | CloseImg \<Rightarrow> Some (s\<lparr>img_open := False, closes := closes s + 1, pc := Returned\<rparr>)
      | Returned \<Rightarrow> None
      | Raised x \<Rightarrow> None)"

text \<open>A schedule names, step by step, the thread that runs next.\<close>

datatype tid = Main | Worker nat

fun step :: "env \<Rightarrow> tid \<Rightarrow> state \<Rightarrow> state option" where
  "step e Main s = tiff2jpeg e s"
| "step e (Worker i) s = save_frame_shared e i s"

fun exec :: "env \<Rightarrow> tid list \<Rightarrow> state \<Rightarrow> state option" where
  "exec e [] s = Some s"
| "exec e (t # ts) s = (case step e t s of None \<Rightarrow> None | Some s' \<Rightarrow> exec e ts s')"

definition run :: "env \<Rightarrow> tid list \<Rightarrow> state option" where
  "run e sched = exec e sched (init e)"

text \<open>No thread can take a step: the program has ended, or it is stuck.\<close>

definition halted :: "env \<Rightarrow> state \<Rightarrow> bool" where
  "halted e s =
     (step e Main s = None \<and> list_all (\<lambda>i. step e (Worker i) s = None) [0..<length (futures s)])"

fun ended :: "mpc \<Rightarrow> bool" where
  "ended Returned = True"
| "ended (Raised x) = True"
| "ended p = False"

text \<open>The JPEG of frame \<open>i\<close>, when the frame decodes and the encoder does not raise.\<close>

definition page_jpeg :: "env \<Rightarrow> nat \<Rightarrow> bytes option" where
  "page_jpeg e i =
     (case convert_rgb e (pages e ! i) of
        None \<Rightarrow> None
      | Some f \<Rightarrow> (case encode_jpeg e f of Inl part \<Rightarrow> None | Inr b \<Rightarrow> Some b))"

definition out_path :: "env \<Rightarrow> nat \<Rightarrow> string" where
  "out_path e i = jpeg_filename (output_folder e) (int i)"

text \<open>
  How call \<open>i\<close> ends, and what its path holds when it has ended, given what the path
  held before: both are fixed by the environment.
\<close>

definition job_end :: "env \<Rightarrow> nat \<Rightarrow> job" where
  "job_end e i =
     (case convert_rgb e (pages e ! i) of
        None \<Rightarrow> Failed PageReadError
      | Some f \<Rightarrow>
          if \<not> write_ok e (out_path e i) then Failed WriteError
          else (case encode_jpeg e f of Inl part \<Rightarrow> Failed EncodeError | Inr b \<Rightarrow> Done))"

definition saved :: "env \<Rightarrow> nat \<Rightarrow> bytes option \<Rightarrow> bytes option" where
  "saved e i c =
     (case convert_rgb e (pages e ! i) of
        None \<Rightarrow> c
      | Some f \<Rightarrow>
          if \<not> write_ok e (out_path e i) then c
          else (case encode_jpeg e f of
                  Inl part \<Rightarrow> (if c = None then None else Some part)
                | Inr b \<Rightarrow> Some b))"

section \<open>Invariants, results and the termination measure\<close>

text \<open>
  The lock is held by call \<open>j\<close> exactly when call \<open>j\<close> is inside the \<^verbatim>\<open>with lock\<close> block.
\<close>

definition lock_inv :: "state \<Rightarrow> bool" where
  "lock_inv s = (\<forall>j. (lock s = Some j) = (j < length (futures s) \<and> in_section (futures s ! j)))"

text \<open>What holds at each program point of the main thread.\<close>

definition started :: "env \<Rightarrow> state \<Rightarrow> bool" where
  "started e s =
     (img_open s \<and> opens s = 1 \<and> closes s = 0 \<and> dir_exists s \<and> makedirs_ok e \<and>
      tiff e \<noteq> None \<and> n_frames_ok e \<and> total_frames s = length (pages e))"

definition main_inv :: "env \<Rightarrow> state \<Rightarrow> bool" where
  "main_inv e s =
     (case pc s of
        MakeDirs \<Rightarrow> futures s = [] \<and> \<not> img_open s \<and> opens s = 0 \<and> closes s = 0 \<and> pbar s = 0 \<and>
          dir_exists s = dir0 e
      | Open \<Rightarrow> futures s = [] \<and> \<not> img_open s \<and> opens s = 0 \<and> closes s = 0 \<and> pbar s = 0 \<and>
          dir_exists s \<and> makedirs_ok e
      | NFrames \<Rightarrow> futures s = [] \<and> img_open s \<and> opens s = 1 \<and> closes s = 0 \<and> pbar s = 0 \<and>
          dir_exists s \<and> makedirs_ok e \<and> tiff e \<noteq> None
      | Submit \<Rightarrow> started e s \<and> length (futures s) \<le> total_frames s \<and> pbar s = 0
      | Update k \<Rightarrow> started e s \<and> length (futures s) = total_frames s \<and> pbar s = k \<and>
          k \<le> total_frames s
      | Shutdown \<Rightarrow> started e s \<and> length (futures s) = total_frames s \<and>
          pbar s = total_frames s
      | CloseImg \<Rightarrow> started e s \<and> length (futures s) = total_frames s \<and>
          pbar s = total_frames s \<and> list_all finished (futures s)
      | Returned \<Rightarrow> \<not> img_open s \<and> opens s = 1 \<and> closes s = 1 \<and> dir_exists s \<and> makedirs_ok e \<and>
          tiff e \<noteq> None \<and> n_frames_ok e \<and> total_frames s = length (pages e) \<and>
          length (futures s) = total_frames s \<and> pbar s = total_frames s \<and>
          list_all finished (futures s)
      | Raised x \<Rightarrow> futures s = [] \<and> \<not> img_open s \<and> pbar s = 0 \<and>
          (if \<not> makedirs_ok e then
             x = OutputDirError \<and> dir_exists s = dir0 e \<and> opens s = 0 \<and> closes s = 0
           else if tiff e = None then
             x = OpenError \<and> dir_exists s \<and> opens s = 0 \<and> closes s = 0
           else x = FrameCountError \<and> dir_exists s \<and> opens s = 1 \<and> closes s = 1 \<and>
             \<not> n_frames_ok e))"

text \<open>
  What holds at each point of call \<open>i\<close>: at the decode the cursor stands on frame \<open>i\<close>; a
  frame in hand is the decoding of frame \<open>i\<close>; a call that has ended has ended as
  \<open>job_end\<close> says. The path of a call holds what it held at the start until the call
  has ended, and then what \<open>saved\<close> says; a path of no call holds what it held at the
  start.
\<close>

fun job_ok :: "env \<Rightarrow> nat \<Rightarrow> nat \<Rightarrow> job \<Rightarrow> bool" where
  "job_ok e c i Convert = (c = i)"
| "job_ok e c i (Release (Inr f)) = (convert_rgb e (pages e ! i) = Some f)"
| "job_ok e c i (Release (Inl x)) = (x = PageReadError \<and> convert_rgb e (pages e ! i) = None)"
| "job_ok e c i (Save f) = (convert_rgb e (pages e ! i) = Some f)"
| "job_ok e c i Done = (job_end e i = Done)"
| "job_ok e c i (Failed x) = (job_end e i = Failed x)"
| "job_ok e c i j = True"

definition data_inv :: "env \<Rightarrow> state \<Rightarrow> bool" where
  "data_inv e s =
     ((\<forall>i<length (futures s). job_ok e (cursor s) i (futures s ! i)) \<and>
      (\<forall>i<length (futures s).
         files s (out_path e i) =
           (if finished (futures s ! i) then saved e i (files0 e (out_path e i))
            else files0 e (out_path e i))) \<and>
      (\<forall>p. (\<forall>i<length (futures s). p \<noteq> out_path e i) \<longrightarrow> files s p = files0 e p))"

definition inv :: "env \<Rightarrow> state \<Rightarrow> bool" where
  "inv e s = (lock_inv s \<and> main_inv e s \<and> data_inv e s)"

text \<open>The number of steps that are left at most; every step lowers it.\<close>

fun job_meas :: "job \<Rightarrow> nat" where
  "job_meas Queued = 6"
| "job_meas Acquire = 5"
| "job_meas Seek = 4"
| "job_meas Convert = 3"
| "job_meas (Release r) = 2"
| "job_meas (Save f) = 1"
| "job_meas Done = 0"
| "job_meas (Failed x) = 0"

fun main_meas :: "nat \<Rightarrow> mpc \<Rightarrow> nat \<Rightarrow> nat \<Rightarrow> nat" where
  "main_meas n MakeDirs t l = 8 * n + 7"
| "main_meas n Open t l = 8 * n + 6"
| "main_meas n NFrames t l = 8 * n + 5"
| "main_meas n Submit t l = 7 * (t - l) + t + 4"
| "main_meas n (Update k) t l = (t - k) + 3"
| "main_meas n Shutdown t l = 2"
| "main_meas n CloseImg t l = 1"
| "main_meas n Returned t l = 0"
| "main_meas n (Raised x) t l = 0"

definition meas :: "env \<Rightarrow> state \<Rightarrow> nat" where
  "meas e s =
     main_meas (length (pages e)) (pc s) (total_frames s) (length (futures s)) +
     sum_list (map job_meas (futures s))"

text \<open>
  The files at the end, as a function of the environment: when the folder can be made
  and the frames counted, the path of frame \<open>i\<close> holds what \<open>saved\<close> says, every other
  path is unchanged. What the caller of \<^verbatim>\<open>tiff2jpeg\<close> gets: an exception, or the value
  without content of a function that returns nothing.
\<close>

definition succeeds :: "env \<Rightarrow> nat \<Rightarrow> bool" where
  "succeeds e i = (page_jpeg e i \<noteq> None \<and> write_ok e (out_path e i))"

definition page_of :: "env \<Rightarrow> string \<Rightarrow> nat option" where
  "page_of e p = find (\<lambda>i. out_path e i = p) [0..<length (pages e)]"

definition expected_files :: "env \<Rightarrow> string \<Rightarrow> bytes option" where
  "expected_files e p =
     (if makedirs_ok e \<and> n_frames_ok e then
        (case page_of e p of None \<Rightarrow> files0 e p | Some i \<Rightarrow> saved e i (files0 e p))
      else files0 e p)"

fun outcome :: "mpc \<Rightarrow> (error + unit) option" where
  "outcome Returned = Some (Inr ())"
| "outcome (Raised x) = Some (Inl x)"
| "outcome p = None"

definition result :: "state \<Rightarrow> (error + unit) option" where
  "result s = outcome (pc s)"

section \<open>A sample environment and sample schedules\<close>

text \<open>
  A sample environment: a TIFF whose frames can be counted, an empty page does not
  decode, the encoder puts two marker bytes in front of the frame and never raises, every
  path can be written, the pool has two workers, the output folder \<^verbatim>\<open>out\<close> does not
  exist yet. Three schedules: the main thread first and then one
  call after the other; two calls overlapping, the second waiting for the lock while the
  first decodes; and five calls of which the fourth fails on its decode.
\<close>

definition demo_env :: "raw_page list option \<Rightarrow> env" where
  "demo_env t =
     \<lparr>output_folder = ''out'', makedirs_ok = True, is_tiff = True, tiff = t,
      n_frames_ok = True, convert_rgb = (\<lambda>p. if p = [] then None else Some p),
      encode_jpeg = (\<lambda>f. Inr (255 # 216 # f)), write_ok = (\<lambda>p. True), max_workers = 2,
      files0 = Map.empty, dir0 = False\<rparr>"

definition sequential :: "nat \<Rightarrow> tid list" where
  "sequential n =
     replicate (2 * n + 5) Main @ concat (map (\<lambda>i. replicate 6 (Worker i)) [0..<n]) @
     [Main, Main]"

definition interleaved :: "tid list" where
  "interleaved =
     [Main, Main, Main, Main, Worker 0, Main, Worker 1, Worker 0, Worker 0, Main, Worker 0,
      Worker 0, Worker 1, Worker 0, Worker 1, Main, Worker 1, Worker 1, Main, Main,
      Worker 1, Main, Main]"

definition fault_schedule :: "tid list" where
  "fault_schedule =
     replicate 15 Main @ concat (map (\<lambda>i. replicate 6 (Worker i)) [0, 1, 2]) @
     replicate 5 (Worker 3) @ replicate 6 (Worker 4) @ [Main, Main]"

section \<open>File names do not collide\<close>

declare dec.simps [simp del]

lemma digit_val_digit_char: "d < 10 \<Longrightarrow> digit_val (digit_char d) = d"
  by (simp add: digit_val_def digit_char_def)

lemma undec_snoc: "undec (s @ [c]) = 10 * undec s + digit_val c"
  by (simp add: undec_def)

lemma undec_dec: "undec (dec n) = n"
proof (induction n rule: dec.induct)
  case (1 n)
  show ?case
  proof (cases "n < 10")
    case True
    then show ?thesis
      by (subst dec.simps) (simp add: undec_def digit_val_digit_char)
  next
    case False
    then have "undec (dec (n div 10)) = n div 10"
      using "1" by simp
    with False show ?thesis
      by (subst dec.simps) (simp add: undec_snoc digit_val_digit_char)
  qed
qed

lemma undec_zeros: "undec (replicate k CHR ''0'' @ s) = undec s"
proof -
  have z: "foldl (\<lambda>a c. 10 * a + digit_val c) 0 (replicate k CHR ''0'') = 0"
    by (induction k) (simp_all add: digit_val_def)
  show ?thesis
    by (simp add: undec_def z)
qed

lemma undec_zero_pad: "undec (zero_pad w (dec n)) = n"
  by (simp add: zero_pad_def undec_zeros undec_dec)

lemma zero_pad_dec_inj: "zero_pad w (dec m) = zero_pad v (dec n) \<Longrightarrow> m = n"
  by (metis undec_zero_pad)

lemma digit_char_neq:
  assumes "k < 10" and "of_char c < (48::nat)"
  shows "digit_char k \<noteq> c" and "c \<noteq> digit_char k"
proof -
  have "of_char (digit_char k) = 48 + k"
    using assms(1) by (simp add: digit_char_def)
  with assms(2) show "digit_char k \<noteq> c" and "c \<noteq> digit_char k"
    by auto
qed

lemma dec_nonempty: "dec n \<noteq> []"
  by (subst dec.simps) simp

lemma dec_no_minus: "CHR ''-'' \<notin> set (dec n)"
proof (induction n rule: dec.induct)
  case (1 n)
  have d: "CHR ''-'' \<noteq> digit_char k" if "k < 10" for k
    using that by (simp add: digit_char_neq)
  show ?case
  proof (cases "n < 10")
    case True
    then show ?thesis
      by (subst dec.simps) (simp add: d)
  next
    case False
    then show ?thesis
      using "1" by (subst dec.simps) (simp add: d)
  qed
qed

lemma zero_pad_no_minus: "CHR ''-'' \<notin> set (zero_pad w (dec n))"
  by (simp add: zero_pad_def dec_no_minus)

lemma zero_pad_nonempty: "zero_pad w (dec n) \<noteq> []"
  by (simp add: zero_pad_def dec_nonempty)

lemma fmt05d_inj: "fmt05d i = fmt05d j \<Longrightarrow> i = j"
proof (cases "i < 0"; cases "j < 0")
  assume e: "fmt05d i = fmt05d j" and "i < 0" "j < 0"
  then have "nat (- i) = nat (- j)"
    by (simp add: fmt05d_def zero_pad_dec_inj)
  with \<open>i < 0\<close> \<open>j < 0\<close> show ?thesis by simp
next
  assume e: "fmt05d i = fmt05d j" and "i < 0" "\<not> j < 0"
  then have "CHR ''-'' \<in> set (zero_pad 5 (dec (nat j)))"
    by (metis fmt05d_def list.set_intros(1))
  then show ?thesis
    by (simp add: zero_pad_no_minus)
next
  assume e: "fmt05d i = fmt05d j" and "\<not> i < 0" "j < 0"
  then have "CHR ''-'' \<in> set (zero_pad 5 (dec (nat i)))"
    by (metis fmt05d_def list.set_intros(1))
  then show ?thesis
    by (simp add: zero_pad_no_minus)
next
  assume e: "fmt05d i = fmt05d j" and "\<not> i < 0" "\<not> j < 0"
  then have "nat i = nat j"
    by (simp add: fmt05d_def zero_pad_dec_inj)
  with \<open>\<not> i < 0\<close> \<open>\<not> j < 0\<close> show ?thesis by simp
qed

lemma fmt05d_no_slash: "hd (fmt05d i @ ''.jpg'') \<noteq> CHR ''/''"
proof -
  have d: "digit_char k \<noteq> CHR ''/''" if "k < 10" for k
    using that by (simp add: digit_char_neq)
  have h: "hd (dec n) \<noteq> CHR ''/''" for n
  proof (induction n rule: dec.induct)
    case (1 n)
    show ?case
    proof (cases "n < 10")
      case True
      then show ?thesis
        by (subst dec.simps) (simp add: d)
    next
      case False
      then show ?thesis
        using "1" by (subst dec.simps) (simp add: dec_nonempty)
    qed
  qed
  have p: "hd (zero_pad w (dec n)) \<noteq> CHR ''/''" for w n
    by (cases "w - length (dec n)") (simp_all add: zero_pad_def h)
  show ?thesis
    by (simp add: fmt05d_def zero_pad_nonempty p)
qed

lemma jpeg_filename_inj: "jpeg_filename d i = jpeg_filename d j \<Longrightarrow> i = j"
  using fmt05d_no_slash [of i] fmt05d_no_slash [of j]
  by (auto simp: jpeg_filename_def path_join_def fmt05d_inj split: if_splits)

section \<open>Steps, invariants and termination\<close>

lemma worker_cases [consumes 1, case_names start acquire seek_closed seek_ok seek_eof
    convert_closed convert_ok convert_bad convert_eof release save_ok save_part save_fail]:
  assumes "save_frame_shared e i s = Some s'"
  obtains
    (start) "i < length (futures s)" "futures s ! i = Queued"
      "length (filter active (futures s)) < max_workers e" "s' = set_job i Acquire s"
  | (acquire) "i < length (futures s)" "futures s ! i = Acquire" "lock s = None"
      "s' = set_job i Seek (s\<lparr>lock := Some i\<rparr>)"
  | (seek_closed) "i < length (futures s)" "futures s ! i = Seek" "\<not> img_open s"
      "s' = set_job i (Release (Inl HandleClosed)) s"
  | (seek_ok) "i < length (futures s)" "futures s ! i = Seek" "img_open s" "i < length (pages e)"
      "s' = set_job i Convert (s\<lparr>cursor := i\<rparr>)"
  | (seek_eof) "i < length (futures s)" "futures s ! i = Seek" "img_open s" "\<not> i < length (pages e)"
      "s' = set_job i (Release (Inl PageReadError)) s"
  | (convert_closed) "i < length (futures s)" "futures s ! i = Convert" "\<not> img_open s"
      "s' = set_job i (Release (Inl HandleClosed)) s"
  | (convert_ok) f where "i < length (futures s)" "futures s ! i = Convert" "img_open s"
      "cursor s < length (pages e)" "convert_rgb e (pages e ! cursor s) = Some f"
      "s' = set_job i (Release (Inr f)) s"
  | (convert_bad) "i < length (futures s)" "futures s ! i = Convert" "img_open s"
      "cursor s < length (pages e)" "convert_rgb e (pages e ! cursor s) = None"
      "s' = set_job i (Release (Inl PageReadError)) s"
  | (convert_eof) "i < length (futures s)" "futures s ! i = Convert" "img_open s"
      "\<not> cursor s < length (pages e)" "s' = set_job i (Release (Inl PageReadError)) s"
  | (release) r where "i < length (futures s)" "futures s ! i = Release r"
      "s' = set_job i (case r of Inl x \<Rightarrow> Failed x | Inr f \<Rightarrow> Save f) (s\<lparr>lock := None\<rparr>)"
  | (save_ok) f b where "i < length (futures s)" "futures s ! i = Save f" "dir_exists s"
      "write_ok e (out_path e i)" "encode_jpeg e f = Inr b"
      "s' = set_job i Done (s\<lparr>files := (files s)(out_path e i \<mapsto> b)\<rparr>)"
  | (save_part) f part where "i < length (futures s)" "futures s ! i = Save f" "dir_exists s"
      "write_ok e (out_path e i)" "encode_jpeg e f = Inl part"
      "s' = set_job i (Failed EncodeError)
         (s\<lparr>files := (if files s (out_path e i) = None then files s
                       else (files s)(out_path e i \<mapsto> part))\<rparr>)"
  | (save_fail) f where "i < length (futures s)" "futures s ! i = Save f"
      "\<not> (dir_exists s \<and> write_ok e (out_path e i))" "s' = set_job i (Failed WriteError) s"
proof -
  from assms have i: "i < length (futures s)"
    by (simp add: save_frame_shared_def split: if_splits)
  show thesis
  proof (cases "futures s ! i")
    case Queued
    with assms i show thesis
      by (intro start) (auto simp: save_frame_shared_def split: if_splits)
  next
    case Acquire
    with assms i show thesis
      by (intro acquire) (auto simp: save_frame_shared_def split: if_splits)
  next
    case Seek
    with assms i show thesis
      by (cases "img_open s"; cases "i < length (pages e)")
        (auto simp: save_frame_shared_def intro: seek_closed seek_ok seek_eof)
  next
    case Convert
    with assms i show thesis
      by (cases "img_open s"; cases "cursor s < length (pages e)";
          cases "convert_rgb e (pages e ! cursor s)")
        (auto simp: save_frame_shared_def
          intro: convert_closed convert_ok convert_bad convert_eof)
  next
    case (Release r)
    with assms i show thesis
      by (intro release) (auto simp: save_frame_shared_def)
  next
    case (Save f)
    with assms i show thesis
      by (cases "dir_exists s \<and> write_ok e (out_path e i)"; cases "encode_jpeg e f")
        (auto simp: save_frame_shared_def out_path_def intro: save_ok save_part save_fail)
  next
    case Done
    with assms i show thesis
      by (simp add: save_frame_shared_def)
  next
    case (Failed x)
    with assms i show thesis
      by (simp add: save_frame_shared_def)
  qed
qed

lemma main_cases [consumes 1, case_names mk_ok mk_fail open_fail open_ok nframes
    nframes_fail submit submit_done update update_done shutdown close]:
  assumes "tiff2jpeg e s = Some s'"
  obtains
    (mk_ok) "pc s = MakeDirs" "makedirs_ok e" "s' = s\<lparr>dir_exists := True, pc := Open\<rparr>"
  | (mk_fail) "pc s = MakeDirs" "\<not> makedirs_ok e" "s' = s\<lparr>pc := Raised OutputDirError\<rparr>"
  | (open_fail) "pc s = Open" "tiff e = None" "s' = s\<lparr>pc := Raised OpenError\<rparr>"
  | (open_ok) ps where "pc s = Open" "tiff e = Some ps"
      "s' = s\<lparr>img_open := True, cursor := 0, opens := opens s + 1, pc := NFrames\<rparr>"
  | (nframes) "pc s = NFrames" "n_frames_ok e"
      "s' = s\<lparr>total_frames := length (pages e), pc := Submit\<rparr>"
  | (nframes_fail) "pc s = NFrames" "\<not> n_frames_ok e"
      "s' = s\<lparr>img_open := False, closes := closes s + 1, pc := Raised FrameCountError\<rparr>"
  | (submit) "pc s = Submit" "length (futures s) < total_frames s"
      "s' = s\<lparr>futures := futures s @ [Queued]\<rparr>"
  | (submit_done) "pc s = Submit" "\<not> length (futures s) < total_frames s"
      "s' = s\<lparr>pc := Update 0\<rparr>"
  | (update) k where "pc s = Update k" "k < length (futures s)"
      "s' = s\<lparr>pbar := pbar s + 1, pc := Update (k + 1)\<rparr>"
  | (update_done) k where "pc s = Update k" "\<not> k < length (futures s)" "s' = s\<lparr>pc := Shutdown\<rparr>"
  | (shutdown) "pc s = Shutdown" "list_all finished (futures s)" "s' = s\<lparr>pc := CloseImg\<rparr>"
  | (close) "pc s = CloseImg"
      "s' = s\<lparr>img_open := False, closes := closes s + 1, pc := Returned\<rparr>"
proof (cases "pc s")
  case MakeDirs
  with assms show thesis
    by (cases "makedirs_ok e") (auto simp: tiff2jpeg_def intro: mk_ok mk_fail)
next
  case Open
  with assms show thesis
    by (cases "tiff e") (auto simp: tiff2jpeg_def intro: open_ok open_fail)
next
  case NFrames
  with assms show thesis
    by (cases "n_frames_ok e") (auto simp: tiff2jpeg_def intro: nframes nframes_fail)
next
  case Submit
  with assms show thesis
    by (cases "length (futures s) < total_frames s")
      (auto simp: tiff2jpeg_def intro: submit submit_done)
next
  case (Update k)
  with assms show thesis
    by (cases "k < length (futures s)") (auto simp: tiff2jpeg_def intro: update update_done)
next
  case Shutdown
  with assms show thesis
    by (cases "list_all finished (futures s)") (auto simp: tiff2jpeg_def intro: shutdown)
next
  case CloseImg
  with assms show thesis
    by (auto simp: tiff2jpeg_def intro: close)
next
  case Returned
  with assms show thesis
    by (simp add: tiff2jpeg_def)
next
  case (Raised x)
  with assms show thesis
    by (simp add: tiff2jpeg_def)
qed

lemma lock_invI:
  assumes "\<And>j. lock s = Some j \<Longrightarrow> j < length (futures s) \<and> in_section (futures s ! j)"
    and "\<And>j. j < length (futures s) \<Longrightarrow> in_section (futures s ! j) \<Longrightarrow> lock s = Some j"
  shows "lock_inv s"
  unfolding lock_inv_def using assms by blast

lemma lock_inv_held:
  assumes "lock_inv s" and "lock s = Some j"
  shows "j < length (futures s)" and "in_section (futures s ! j)"
  using assms unfolding lock_inv_def by blast+

lemma lock_inv_holder:
  assumes "lock_inv s" and "j < length (futures s)" and "in_section (futures s ! j)"
  shows "lock s = Some j"
  using assms unfolding lock_inv_def by blast

lemma lock_inv_update:
  assumes inv: "lock_inv s" and i: "i < length (futures s)"
    and js: "futures s' = (futures s)[i := x]"
    and lk0: "lock s' = (if in_section (futures s ! i) then (if in_section x then lock s else None)
                         else if in_section x then Some i else lock s)"
    and free: "in_section x \<Longrightarrow> \<not> in_section (futures s ! i) \<Longrightarrow> lock s = None"
  shows "lock_inv s'"
proof -
  have "in_section (futures s ! i) \<Longrightarrow> lock s = Some i"
    using lock_inv_holder [OF inv i] by simp
  with lk0 have lk: "lock s' = (if in_section x then Some i
                        else if in_section (futures s ! i) then None else lock s)"
    by simp
  show ?thesis
  proof (rule lock_invI)
  fix j
  assume h: "lock s' = Some j"
  show "j < length (futures s') \<and> in_section (futures s' ! j)"
  proof (cases "in_section x")
    case True
    with h lk have "j = i" by simp
    with True i js show ?thesis by simp
  next
    case False
    with h lk have old: "\<not> in_section (futures s ! i)" and "lock s = Some j"
      by (simp_all split: if_splits)
    then have "j < length (futures s)" and "in_section (futures s ! j)"
      using lock_inv_held [OF inv] by simp_all
    with old have "j \<noteq> i" by auto
    with \<open>j < length (futures s)\<close> \<open>in_section (futures s ! j)\<close> js show ?thesis by simp
  qed
next
  fix j
  assume j: "j < length (futures s')" and sec: "in_section (futures s' ! j)"
  show "lock s' = Some j"
  proof (cases "j = i")
    case True
    with j sec js lk show ?thesis by simp
  next
    case False
    with j sec js have jl: "j < length (futures s)" and "in_section (futures s ! j)"
      by simp_all
    then have held: "lock s = Some j"
      using lock_inv_holder [OF inv] by simp
    have "\<not> in_section (futures s ! i)"
    proof
      assume "in_section (futures s ! i)"
      then have "lock s = Some i"
        using lock_inv_holder [OF inv i] by simp
      with held False show False by simp
    qed
    moreover have "\<not> in_section x"
      using free held \<open>\<not> in_section (futures s ! i)\<close> by auto
    ultimately show ?thesis
      using lk held by simp
  qed
qed
qed

lemma lock_inv_init: "lock_inv (init e)"
  by (simp add: lock_inv_def init_def)

lemma lock_inv_main:
  assumes "lock_inv s" and "tiff2jpeg e s = Some s'"
  shows "lock_inv s'"
  using assms(2)
proof (cases rule: main_cases)
  case submit
  show ?thesis
  proof (rule lock_invI)
    fix j
    assume "lock s' = Some j"
    with submit have "lock s = Some j" by simp
    then have "j < length (futures s)" and "in_section (futures s ! j)"
      using lock_inv_held [OF assms(1)] by simp_all
    with submit show "j < length (futures s') \<and> in_section (futures s' ! j)"
      by (simp add: nth_append)
  next
    fix j
    assume "j < length (futures s')" and "in_section (futures s' ! j)"
    with submit have "j < length (futures s)" and "in_section (futures s ! j)"
      by (simp_all add: nth_append less_Suc_eq split: if_splits)
    then have "lock s = Some j"
      using lock_inv_holder [OF assms(1)] by simp
    with submit show "lock s' = Some j" by simp
  qed
qed (use assms(1) in \<open>simp_all add: lock_inv_def\<close>)

lemma lock_inv_worker:
  assumes "lock_inv s" and "save_frame_shared e i s = Some s'"
  shows "lock_inv s'"
  using assms(2)
proof (cases rule: worker_cases)
  case start
  then show ?thesis
    by (intro lock_inv_update [OF assms(1), of i s' "Acquire"])
      (simp_all add: set_job_def split: sum.splits)
next
  case acquire
  then show ?thesis
    by (intro lock_inv_update [OF assms(1), of i s' "Seek"])
      (simp_all add: set_job_def split: sum.splits)
next
  case seek_closed
  then show ?thesis
    by (intro lock_inv_update [OF assms(1), of i s' "Release (Inl HandleClosed)"])
      (simp_all add: set_job_def split: sum.splits)
next
  case seek_ok
  then show ?thesis
    by (intro lock_inv_update [OF assms(1), of i s' "Convert"])
      (simp_all add: set_job_def split: sum.splits)
next
  case seek_eof
  then show ?thesis
    by (intro lock_inv_update [OF assms(1), of i s' "Release (Inl PageReadError)"])
      (simp_all add: set_job_def split: sum.splits)
next
  case convert_closed
  then show ?thesis
    by (intro lock_inv_update [OF assms(1), of i s' "Release (Inl HandleClosed)"])
      (simp_all add: set_job_def split: sum.splits)
next
  case (convert_ok f)
  then show ?thesis
    by (intro lock_inv_update [OF assms(1), of i s' "Release (Inr f)"])
      (simp_all add: set_job_def split: sum.splits)
next
  case convert_bad
  then show ?thesis
    by (intro lock_inv_update [OF assms(1), of i s' "Release (Inl PageReadError)"])
      (simp_all add: set_job_def split: sum.splits)
next
  case convert_eof
  then show ?thesis
    by (intro lock_inv_update [OF assms(1), of i s' "Release (Inl PageReadError)"])
      (simp_all add: set_job_def split: sum.splits)
next
  case (release r)
  then show ?thesis
    by (intro lock_inv_update [OF assms(1), of i s' "case r of Inl x \<Rightarrow> Failed x | Inr f \<Rightarrow> Save f"])
      (simp_all add: set_job_def split: sum.splits)
next
  case (save_ok f b)
  then show ?thesis
    by (intro lock_inv_update [OF assms(1), of i s' "Done"])
      (simp_all add: set_job_def split: sum.splits)
next
  case (save_part f part)
  then show ?thesis
    by (intro lock_inv_update [OF assms(1), of i s' "Failed EncodeError"])
      (simp_all add: set_job_def split: sum.splits)
next
  case (save_fail f)
  then show ?thesis
    by (intro lock_inv_update [OF assms(1), of i s' "Failed WriteError"])
      (simp_all add: set_job_def split: sum.splits)
qed

lemma main_inv_init: "main_inv e (init e)"
  by (simp add: main_inv_def init_def)

lemma main_inv_main:
  assumes "main_inv e s" and "tiff2jpeg e s = Some s'"
  shows "main_inv e s'"
  using assms(2)
  by (cases rule: main_cases) (use assms(1) in \<open>auto simp: main_inv_def started_def pages_def\<close>)

lemma finished_no_step: "i < length (futures s) \<Longrightarrow> finished (futures s ! i) \<Longrightarrow> save_frame_shared e i s = None"
  by (cases "futures s ! i") (simp_all add: save_frame_shared_def)

lemma worker_frame:
  assumes "save_frame_shared e i s = Some s'"
  shows "pc s' = pc s" "dir_exists s' = dir_exists s" "img_open s' = img_open s"
    "opens s' = opens s" "closes s' = closes s" "total_frames s' = total_frames s"
    "pbar s' = pbar s" "length (futures s') = length (futures s)"
    "i < length (futures s)" "\<not> finished (futures s ! i)"
    "\<And>k. k \<noteq> i \<Longrightarrow> futures s' ! k = futures s ! k"
  using assms by (cases rule: worker_cases; simp add: set_job_def)+

lemma main_inv_worker:
  assumes "main_inv e s" and "save_frame_shared e i s = Some s'"
  shows "main_inv e s'"
proof -
  note f = worker_frame [OF assms(2)]
  have nf: "\<not> list_all finished (futures s)"
    using f(9,10) by (auto simp: list_all_length)
  have ne: "futures s \<noteq> []"
    using f(9) by auto
  have ne': "futures s' \<noteq> []"
    using f(8,9) by auto
  show ?thesis
    using assms(1) nf ne ne' f(1-8)
    by (cases "pc s") (simp_all add: main_inv_def started_def)
qed

lemma main_inv_jobs:
  assumes "main_inv e s" and "i < length (futures s)"
  shows "length (futures s) \<le> length (pages e)" and "dir_exists s" and "makedirs_ok e"
    and "tiff e \<noteq> None" and "opens s = 1" and "total_frames s = length (pages e)"
proof -
  have ne: "futures s \<noteq> []"
    using assms(2) by auto
  show "length (futures s) \<le> length (pages e)" and "dir_exists s" and "makedirs_ok e"
    and "tiff e \<noteq> None" and "opens s = 1" and "total_frames s = length (pages e)"
    using assms(1) ne by (cases "pc s"; simp add: main_inv_def started_def)+
qed

lemma main_inv_open:
  assumes "main_inv e s" and "i < length (futures s)" and "\<not> finished (futures s ! i)"
  shows "img_open s"
proof -
  have ne: "futures s \<noteq> []"
    using assms(2) by auto
  have nf: "\<not> list_all finished (futures s)"
    using assms(2,3) by (auto simp: list_all_length)
  show ?thesis
    using assms(1) ne nf by (cases "pc s") (simp_all add: main_inv_def started_def)
qed

lemma out_path_inj: "out_path e i = out_path e k \<Longrightarrow> i = k"
  using jpeg_filename_inj [of "output_folder e" "int i" "int k"] by (simp add: out_path_def)

lemma job_ok_frame:
  assumes "J = Convert \<Longrightarrow> c' = c"
  shows "job_ok e c' i J = job_ok e c i J"
  using assms by (cases "(e, c, i, J)" rule: job_ok.cases) auto

lemma data_invI:
  assumes "\<And>i. i < length (futures s) \<Longrightarrow> job_ok e (cursor s) i (futures s ! i)"
    and "\<And>i. i < length (futures s) \<Longrightarrow>
           files s (out_path e i) =
             (if finished (futures s ! i) then saved e i (files0 e (out_path e i))
              else files0 e (out_path e i))"
    and "\<And>p. (\<And>i. i < length (futures s) \<Longrightarrow> p \<noteq> out_path e i) \<Longrightarrow> files s p = files0 e p"
  shows "data_inv e s"
  unfolding data_inv_def using assms by blast

lemma data_inv_job:
  "data_inv e s \<Longrightarrow> i < length (futures s) \<Longrightarrow> job_ok e (cursor s) i (futures s ! i)"
  unfolding data_inv_def by blast

lemma data_inv_own:
  "data_inv e s \<Longrightarrow> i < length (futures s) \<Longrightarrow>
     files s (out_path e i) =
       (if finished (futures s ! i) then saved e i (files0 e (out_path e i))
        else files0 e (out_path e i))"
  unfolding data_inv_def by blast

lemma data_inv_other:
  assumes "data_inv e s" and "\<And>i. i < length (futures s) \<Longrightarrow> p \<noteq> out_path e i"
  shows "files s p = files0 e p"
  using assms unfolding data_inv_def by blast

lemma data_inv_update:
  assumes inv: "data_inv e s" and i: "i < length (futures s)"
    and js: "futures s' = (futures s)[i := x]"
    and ok: "job_ok e (cursor s') i x"
    and cur: "\<And>k. k < length (futures s) \<Longrightarrow> k \<noteq> i \<Longrightarrow> futures s ! k = Convert \<Longrightarrow>
        cursor s' = cursor s"
    and fil: "\<And>p. p \<noteq> out_path e i \<Longrightarrow> files s' p = files s p"
    and own: "files s' (out_path e i) =
        (if finished x then saved e i (files0 e (out_path e i)) else files0 e (out_path e i))"
  shows "data_inv e s'"
proof (rule data_invI)
  fix k
  assume k: "k < length (futures s')"
  show "job_ok e (cursor s') k (futures s' ! k)"
  proof (cases "k = i")
    case True
    with ok js i show ?thesis by simp
  next
    case False
    with k js have kl: "k < length (futures s)" and same: "futures s' ! k = futures s ! k"
      by simp_all
    have "job_ok e (cursor s') k (futures s ! k) = job_ok e (cursor s) k (futures s ! k)"
      using cur [OF kl False] by (rule job_ok_frame)
    with data_inv_job [OF inv kl] same show ?thesis by simp
  qed
next
  fix k
  assume k: "k < length (futures s')"
  show "files s' (out_path e k) =
      (if finished (futures s' ! k) then saved e k (files0 e (out_path e k))
       else files0 e (out_path e k))"
  proof (cases "k = i")
    case True
    with own js i show ?thesis by simp
  next
    case False
    with k js have kl: "k < length (futures s)" and same: "futures s' ! k = futures s ! k"
      by simp_all
    have "out_path e k \<noteq> out_path e i"
      using False out_path_inj by blast
    then have "files s' (out_path e k) = files s (out_path e k)"
      by (rule fil)
    with data_inv_own [OF inv kl] same show ?thesis by simp
  qed
next
  fix p
  assume np: "\<And>k. k < length (futures s') \<Longrightarrow> p \<noteq> out_path e k"
  from js have len: "length (futures s') = length (futures s)"
    by simp
  have "files s p = files0 e p"
    using np len by (intro data_inv_other [OF inv]) simp
  moreover have "files s' p = files s p"
    using np [of i] i len by (intro fil) simp
  ultimately show "files s' p = files0 e p" by simp
qed

lemma data_inv_init: "data_inv e (init e)"
  by (simp add: data_inv_def init_def)

lemma data_inv_main:
  assumes "main_inv e s" and "data_inv e s" and "tiff2jpeg e s = Some s'"
  shows "data_inv e s'"
  using assms(3)
proof (cases rule: main_cases)
  case (open_ok ps)
  with assms(1) have "futures s = []"
    by (simp add: main_inv_def)
  with assms(2) open_ok show ?thesis
    by (simp add: data_inv_def)
next
  case submit
  show ?thesis
  proof (rule data_invI)
    fix k
    assume k: "k < length (futures s')"
    show "job_ok e (cursor s') k (futures s' ! k)"
    proof (cases "k < length (futures s)")
      case True
      with submit have "futures s' ! k = futures s ! k" and "cursor s' = cursor s"
        by (simp_all add: nth_append)
      with data_inv_job [OF assms(2) True] show ?thesis by simp
    next
      case False
      with k submit have "futures s' ! k = Queued"
        by (simp add: nth_append)
      then show ?thesis by simp
    qed
  next
    fix k
    assume k: "k < length (futures s')"
    show "files s' (out_path e k) =
        (if finished (futures s' ! k) then saved e k (files0 e (out_path e k))
         else files0 e (out_path e k))"
    proof (cases "k < length (futures s)")
      case True
      with submit have "futures s' ! k = futures s ! k" and "files s' = files s"
        by (simp_all add: nth_append)
      with data_inv_own [OF assms(2) True] show ?thesis by simp
    next
      case False
      with k submit have q: "futures s' ! k = Queued" and kk: "k = length (futures s)"
        by (simp_all add: nth_append)
      have "files s (out_path e k) = files0 e (out_path e k)"
      proof (rule data_inv_other [OF assms(2)])
        fix j
        assume "j < length (futures s)"
        with kk have "k \<noteq> j" by simp
        then show "out_path e k \<noteq> out_path e j"
          using out_path_inj by blast
      qed
      with q submit show ?thesis by simp
    qed
  next
    fix p
    assume np: "\<And>k. k < length (futures s') \<Longrightarrow> p \<noteq> out_path e k"
    have "files s p = files0 e p"
      using np submit by (intro data_inv_other [OF assms(2)]) simp
    with submit show "files s' p = files0 e p" by simp
  qed
qed (use assms(2) in \<open>simp_all add: data_inv_def\<close>)

lemma data_inv_worker:
  assumes lk: "lock_inv s" and mi: "main_inv e s" and di: "data_inv e s"
    and st: "save_frame_shared e i s = Some s'"
  shows "data_inv e s'"
proof -
  note f = worker_frame [OF st]
  note m = main_inv_jobs [OF mi f(9)]
  have opn: "img_open s"
    using main_inv_open [OF mi f(9,10)] .
  have il: "i < length (pages e)"
    using m(1) f(9) by simp
  note ok = data_inv_job [OF di f(9)]
  have old: "files s (out_path e i) = files0 e (out_path e i)"
    using data_inv_own [OF di f(9)] f(10) by simp
  from st show ?thesis
  proof (cases rule: worker_cases)
    case start
    with old show ?thesis
      by (intro data_inv_update [OF di f(9), of s' Acquire]) (simp_all add: set_job_def)
  next
    case acquire
    with old show ?thesis
      by (intro data_inv_update [OF di f(9), of s' Seek]) (simp_all add: set_job_def)
  next
    case seek_closed
    with opn show ?thesis by simp
  next
    case seek_ok
    have "k \<noteq> i \<Longrightarrow> k < length (futures s) \<Longrightarrow> futures s ! k \<noteq> Convert" for k
    proof
      assume "k \<noteq> i" and kl: "k < length (futures s)" and "futures s ! k = Convert"
      then have "lock s = Some k"
        using lock_inv_holder [OF lk kl] by simp
      moreover have "lock s = Some i"
        using lock_inv_holder [OF lk f(9)] seek_ok by simp
      ultimately show False
        using \<open>k \<noteq> i\<close> by simp
    qed
    with seek_ok old show ?thesis
      by (intro data_inv_update [OF di f(9), of s' Convert]) (auto simp: set_job_def)
  next
    case seek_eof
    with il show ?thesis by simp
  next
    case convert_closed
    with opn show ?thesis by simp
  next
    case (convert_ok g)
    with ok have "convert_rgb e (pages e ! i) = Some g"
      by simp
    with convert_ok old show ?thesis
      by (intro data_inv_update [OF di f(9), of s' "Release (Inr g)"]) (simp_all add: set_job_def)
  next
    case convert_bad
    with ok have "convert_rgb e (pages e ! i) = None"
      by simp
    with convert_bad old show ?thesis
      by (intro data_inv_update [OF di f(9), of s' "Release (Inl PageReadError)"])
        (simp_all add: set_job_def)
  next
    case convert_eof
    with ok il show ?thesis by simp
  next
    case (release r)
    show ?thesis
    proof (cases r)
      case (Inl x)
      with release ok old show ?thesis
        by (intro data_inv_update [OF di f(9), of s' "Failed x"])
          (simp_all add: set_job_def job_end_def saved_def)
    next
      case (Inr g)
      with release ok old show ?thesis
        by (intro data_inv_update [OF di f(9), of s' "Save g"]) (simp_all add: set_job_def)
    qed
  next
    case (save_ok g b)
    with ok old show ?thesis
      by (intro data_inv_update [OF di f(9), of s' Done])
        (simp_all add: set_job_def job_end_def saved_def)
  next
    case (save_part g part)
    with ok old show ?thesis
      by (intro data_inv_update [OF di f(9), of s' "Failed EncodeError"])
        (simp_all add: set_job_def job_end_def saved_def)
  next
    case (save_fail g)
    with ok m(2) have "convert_rgb e (pages e ! i) = Some g" and "\<not> write_ok e (out_path e i)"
      by simp_all
    with save_fail old show ?thesis
      by (intro data_inv_update [OF di f(9), of s' "Failed WriteError"])
        (simp_all add: set_job_def job_end_def saved_def)
  qed
qed

lemma inv_init: "inv e (init e)"
  by (simp add: inv_def lock_inv_init main_inv_init data_inv_init)

lemma inv_step:
  assumes "inv e s" and "step e t s = Some s'"
  shows "inv e s'"
proof -
  from assms(1) have a: "lock_inv s" "main_inv e s" "data_inv e s"
    by (simp_all add: inv_def)
  show ?thesis
  proof (cases t)
    case Main
    with assms(2) have st: "tiff2jpeg e s = Some s'"
      by simp
    show ?thesis
      unfolding inv_def
      using lock_inv_main [OF a(1) st] main_inv_main [OF a(2) st] data_inv_main [OF a(2,3) st]
      by simp
  next
    case (Worker i)
    with assms(2) have st: "save_frame_shared e i s = Some s'"
      by simp
    show ?thesis
      unfolding inv_def
      using lock_inv_worker [OF a(1) st] main_inv_worker [OF a(2) st]
        data_inv_worker [OF a st]
      by simp
  qed
qed

lemma inv_exec: "inv e s \<Longrightarrow> exec e sched s = Some s' \<Longrightarrow> inv e s'"
proof (induction sched arbitrary: s)
  case Nil
  then show ?case by simp
next
  case (Cons t ts)
  then show ?case
    by (auto split: option.splits dest: inv_step)
qed

lemma inv_run: "run e sched = Some s \<Longrightarrow> inv e s"
  unfolding run_def using inv_exec [OF inv_init] .

lemma halted_iff:
  "halted e s = (tiff2jpeg e s = None \<and> (\<forall>i<length (futures s). save_frame_shared e i s = None))"
  by (auto simp: halted_def list_all_iff)

lemma main_blocked:
  assumes "tiff2jpeg e s = None"
  shows "ended (pc s) \<or> (pc s = Shutdown \<and> \<not> list_all finished (futures s))"
  using assms by (cases "pc s") (simp_all add: tiff2jpeg_def split: if_splits option.splits)

lemma worker_blocked:
  assumes "i < length (futures s)" and "save_frame_shared e i s = None"
  shows "(futures s ! i = Queued \<and> \<not> length (filter active (futures s)) < max_workers e) \<or>
         (futures s ! i = Acquire \<and> lock s \<noteq> None) \<or> finished (futures s ! i)"
  using assms
  by (cases "futures s ! i")
    (simp_all add: save_frame_shared_def split: if_splits option.splits sum.splits)

lemma halted_ended:
  assumes "inv e s" and w: "0 < max_workers e" and h: "halted e s"
  shows "ended (pc s)"
proof (rule ccontr)
  assume ne: "\<not> ended (pc s)"
  from h have m: "tiff2jpeg e s = None"
    and b: "\<And>i. i < length (futures s) \<Longrightarrow> save_frame_shared e i s = None"
    by (simp_all add: halted_iff)
  from main_blocked [OF m] ne have "\<not> list_all finished (futures s)"
    by simp
  then obtain i where i: "i < length (futures s)" and nf: "\<not> finished (futures s ! i)"
    by (auto simp: list_all_length)
  have shape: "futures s ! k = Queued \<or> futures s ! k = Acquire \<or> finished (futures s ! k)"
    if "k < length (futures s)" for k
    using worker_blocked [OF that b [OF that]] by auto
  have nosec: "\<not> in_section (futures s ! k)" if "k < length (futures s)" for k
    using shape [OF that] by (cases "futures s ! k") auto
  have free: "lock s = None"
  proof (cases "lock s")
    case None
    then show ?thesis .
  next
    case (Some j)
    from assms(1) have "lock_inv s"
      by (simp add: inv_def)
    from lock_inv_held [OF this Some] nosec show ?thesis
      by simp
  qed
  have idle: "\<not> active (futures s ! k)" if "k < length (futures s)" for k
    using worker_blocked [OF that b [OF that]] free by (cases "futures s ! k") auto
  have "filter active (futures s) = []"
    unfolding filter_empty_conv using idle by (auto simp: in_set_conv_nth)
  with worker_blocked [OF i b [OF i]] nf free w show False
    by simp
qed

lemma meas_init: "meas e (init e) = 8 * length (pages e) + 7"
  by (simp add: meas_def init_def)

lemma meas_main:
  assumes "main_inv e s" and "tiff2jpeg e s = Some s'"
  shows "meas e s' < meas e s"
  using assms(2)
  by (cases rule: main_cases)
    (use assms(1) in \<open>auto simp: meas_def main_inv_def started_def\<close>)

lemma meas_worker:
  assumes "save_frame_shared e i s = Some s'"
  shows "meas e s' < meas e s"
proof -
  note f = worker_frame [OF assms]
  have upd: "sum_list (map job_meas ((futures s)[i := x])) < sum_list (map job_meas (futures s))"
    if "job_meas x < job_meas (futures s ! i)" for x
  proof -
    have "sum_list ((map job_meas (futures s))[i := job_meas x]) =
        sum_list (map job_meas (futures s)) + job_meas x - map job_meas (futures s) ! i"
      using f(9) by (intro sum_list_update) simp
    moreover have "map job_meas (futures s) ! i \<le> sum_list (map job_meas (futures s))"
      using f(9) by (intro elem_le_sum_list) simp
    ultimately show ?thesis
      using that f(9) by (simp add: map_update)
  qed
  have "sum_list (map job_meas (futures s')) < sum_list (map job_meas (futures s))"
    using assms
    by (cases rule: worker_cases) (auto simp: set_job_def intro!: upd split: sum.splits)
  with f(1,6,8) show ?thesis
    by (simp add: meas_def)
qed

lemma meas_step:
  assumes "inv e s" and "step e t s = Some s'"
  shows "meas e s' < meas e s"
  using assms by (cases t) (simp_all add: inv_def meas_main meas_worker)

lemma meas_exec: "inv e s \<Longrightarrow> exec e sched s = Some s' \<Longrightarrow> length sched + meas e s' \<le> meas e s"
proof (induction sched arbitrary: s)
  case Nil
  then show ?case by simp
next
  case (Cons t ts)
  from Cons.prems(2) obtain s1 where s1: "step e t s = Some s1" and r: "exec e ts s1 = Some s'"
    by (auto split: option.splits)
  from Cons.IH [OF inv_step [OF Cons.prems(1) s1] r] meas_step [OF Cons.prems(1) s1]
  show ?case by simp
qed

lemma run_bound: "run e sched = Some s \<Longrightarrow> length sched + meas e s \<le> 8 * length (pages e) + 7"
  unfolding run_def using meas_exec [OF inv_init, of e sched s] by (simp add: meas_init)

lemma exec_append:
  "exec e (xs @ ys) s = (case exec e xs s of None \<Rightarrow> None | Some s' \<Rightarrow> exec e ys s')"
  by (induction xs arbitrary: s) (simp_all split: option.splits)

lemma not_halted_step:
  assumes "\<not> halted e s"
  shows "\<exists>t s'. step e t s = Some s'"
proof (cases "tiff2jpeg e s")
  case (Some s')
  then have "step e Main s = Some s'" by simp
  then show ?thesis by blast
next
  case None
  with assms obtain i where "save_frame_shared e i s \<noteq> None"
    by (auto simp: halted_iff)
  then obtain s' where "step e (Worker i) s = Some s'" by auto
  then show ?thesis by blast
qed

lemma exec_completes:
  "inv e s \<Longrightarrow> \<exists>more s'. exec e more s = Some s' \<and> halted e s'"
proof (induction "meas e s" arbitrary: s rule: less_induct)
  case less
  show ?case
  proof (cases "halted e s")
    case True
    then have "exec e [] s = Some s \<and> halted e s" by simp
    then show ?thesis by blast
  next
    case False
    from not_halted_step [OF this] obtain t s1 where st: "step e t s = Some s1"
      by blast
    from less.hyps [OF meas_step [OF less.prems st] inv_step [OF less.prems st]]
    obtain more s' where "exec e more s1 = Some s'" and "halted e s'"
      by blast
    with st have "exec e (t # more) s = Some s' \<and> halted e s'" by simp
    then show ?thesis by blast
  qed
qed

lemma run_completes:
  assumes "run e sched = Some s"
  shows "\<exists>more s'. run e (sched @ more) = Some s' \<and> halted e s'"
proof -
  from exec_completes [OF inv_run [OF assms]] obtain more s'
    where "exec e more s = Some s'" and "halted e s'"
    by blast
  with assms have "run e (sched @ more) = Some s' \<and> halted e s'"
    by (simp add: run_def exec_append)
  then show ?thesis by blast
qed

lemma inv_parts:
  assumes "inv e s"
  shows "lock_inv s" and "main_inv e s" and "data_inv e s"
  using assms by (simp_all add: inv_def)

lemma job_end_finished: "finished (job_end e i)"
  by (simp add: job_end_def split: option.splits sum.splits)

lemma job_end_Done: "(job_end e i = Done) = succeeds e i"
  by (simp add: job_end_def succeeds_def page_jpeg_def split: option.splits sum.splits)

lemma job_end_decode: "convert_rgb e (pages e ! i) = None \<Longrightarrow> job_end e i = Failed PageReadError"
  by (simp add: job_end_def)

lemma saved_succeeds: "succeeds e i \<Longrightarrow> saved e i c = page_jpeg e i"
  by (simp add: saved_def succeeds_def page_jpeg_def split: option.splits sum.splits)

lemma saved_unchanged:
  "convert_rgb e (pages e ! i) = None \<or> \<not> write_ok e (out_path e i) \<Longrightarrow> saved e i c = c"
  by (auto simp: saved_def split: option.splits)

lemma saved_idem: "saved e i (saved e i c) = saved e i c"
  by (simp add: saved_def split: option.splits sum.splits)

lemma returned_facts:
  assumes "main_inv e s" and "pc s = Returned"
  shows "length (futures s) = length (pages e)" and "list_all finished (futures s)"
    and "pbar s = length (pages e)" and "opens s = 1" and "closes s = 1"
    and "\<not> img_open s" and "dir_exists s" and "makedirs_ok e" and "tiff e \<noteq> None"
    and "n_frames_ok e"
  using assms by (simp_all add: main_inv_def)

lemma raised_facts:
  assumes "main_inv e s" and "pc s = Raised x"
  shows "futures s = []" and "\<not> img_open s" and "closes s = opens s" and "pbar s = 0"
    and "x = (if \<not> makedirs_ok e then OutputDirError
              else if tiff e = None then OpenError else FrameCountError)"
    and "makedirs_ok e \<Longrightarrow> dir_exists s"
    and "makedirs_ok e \<Longrightarrow> tiff e \<noteq> None \<Longrightarrow> \<not> n_frames_ok e"
    and "opens s = (if makedirs_ok e \<and> tiff e \<noteq> None then 1 else 0)"
  using assms by (simp_all add: main_inv_def split: if_splits)

lemma no_jobs_files:
  assumes "data_inv e s" and "futures s = []"
  shows "files s = files0 e"
proof
  fix p
  show "files s p = files0 e p"
    using assms(2) by (intro data_inv_other [OF assms(1)]) simp
qed

lemma final_job:
  assumes "inv e s" and "pc s = Returned" and i: "i < length (pages e)"
  shows "futures s ! i = job_end e i"
proof -
  note p = inv_parts [OF assms(1)]
  note r = returned_facts [OF p(2) assms(2)]
  from i r(1) have il: "i < length (futures s)" by simp
  with r(2) have fin: "finished (futures s ! i)"
    by (simp add: list_all_length)
  note ok = data_inv_job [OF p(3) il]
  show ?thesis
  proof (cases "futures s ! i")
    case Done
    with ok show ?thesis by simp
  next
    case (Failed x)
    with ok show ?thesis by simp
  qed (use fin in simp_all)
qed

lemma final_files_own:
  assumes "inv e s" and "pc s = Returned" and i: "i < length (pages e)"
  shows "files s (out_path e i) = saved e i (files0 e (out_path e i))"
proof -
  note p = inv_parts [OF assms(1)]
  note r = returned_facts [OF p(2) assms(2)]
  from i r(1) have il: "i < length (futures s)" by simp
  with r(2) have "finished (futures s ! i)"
    by (simp add: list_all_length)
  with data_inv_own [OF p(3) il] show ?thesis by simp
qed

lemma final_files_other:
  assumes "inv e s" and "pc s = Returned"
    and "\<And>i. i < length (pages e) \<Longrightarrow> p \<noteq> out_path e i"
  shows "files s p = files0 e p"
proof (rule data_inv_other)
  show "data_inv e s"
    using inv_parts [OF assms(1)] by simp
next
  fix i
  assume il: "i < length (futures s)"
  note p = inv_parts [OF assms(1)]
  note r = returned_facts [OF p(2) assms(2)]
  from il r(1) have "i < length (pages e)" by simp
  then show "p \<noteq> out_path e i" by (rule assms(3))
qed

lemma halted_outcome:
  assumes "inv e s" and "0 < max_workers e" and "halted e s"
  shows "pc s =
     (if \<not> makedirs_ok e then Raised OutputDirError
      else if tiff e = None then Raised OpenError
      else if n_frames_ok e then Returned else Raised FrameCountError)"
proof -
  note p = inv_parts [OF assms(1)]
  from halted_ended [OF assms] show ?thesis
  proof (cases "pc s")
    case Returned
    with returned_facts [OF p(2) Returned] show ?thesis by simp
  next
    case (Raised x)
    with raised_facts(5,7) [OF p(2) Raised] show ?thesis by auto
  qed simp_all
qed

lemma page_of_Some:
  assumes "page_of e p = Some i"
  shows "i < length (pages e)" and "out_path e i = p"
  using assms by (auto simp: page_of_def find_Some_iff)

lemma page_of_None:
  assumes "page_of e p = None" and "i < length (pages e)"
  shows "p \<noteq> out_path e i"
  using assms by (auto simp: page_of_def find_None_iff)

lemma final_files:
  assumes "inv e s" and "0 < max_workers e" and "halted e s"
  shows "files s = expected_files e"
proof
  fix p
  note p = inv_parts [OF assms(1)]
  note o = halted_outcome [OF assms]
  show "files s p = expected_files e p"
  proof (cases "makedirs_ok e \<and> tiff e \<noteq> None \<and> n_frames_ok e")
    case True
    with o have r: "pc s = Returned" by simp
    show ?thesis
    proof (cases "page_of e p")
      case None
      from final_files_other [OF assms(1) r, of p] page_of_None [OF None]
      have "files s p = files0 e p" by blast
      with True None show ?thesis by (simp add: expected_files_def)
    next
      case (Some i)
      note q = page_of_Some [OF Some]
      from final_files_own [OF assms(1) r q(1)] q(2) True Some show ?thesis
        by (simp add: expected_files_def)
    qed
  next
    case False
    with o obtain x where x: "pc s = Raised x"
      by (auto split: if_splits)
    from no_jobs_files [OF p(3) raised_facts(1) [OF p(2) x]]
    have f: "files s p = files0 e p" by simp
    have "tiff e = None \<Longrightarrow> page_of e p = None"
      by (simp add: page_of_def pages_def)
    with f False show ?thesis
      by (auto simp: expected_files_def)
  qed
qed

lemma dec_length_le: "0 < k \<Longrightarrow> n < 10 ^ k \<Longrightarrow> length (dec n) \<le> k"
proof (induction n arbitrary: k rule: dec.induct)
  case (1 n)
  show ?case
  proof (cases "n < 10")
    case True
    with "1.prems" show ?thesis
      by (subst dec.simps) simp
  next
    case False
    with "1.prems" obtain k' where k: "k = Suc k'"
      by (cases k) auto
    with False "1.prems" have "0 < k'"
      by (cases k') auto
    moreover from k "1.prems" have "n div 10 < 10 ^ k'"
      by (simp add: less_mult_imp_div_less mult.commute)
    ultimately have "length (dec (n div 10)) \<le> k'"
      using "1.IH" [OF False] by simp
    with False k show ?thesis
      by (subst dec.simps) simp
  qed
qed

lemma dec_length_gt: "10 ^ k \<le> n \<Longrightarrow> k < length (dec n)"
proof (induction n arbitrary: k rule: dec.induct)
  case (1 n)
  show ?case
  proof (cases k)
    case 0
    then show ?thesis
      using dec_nonempty [of n] by (cases "dec n") simp_all
  next
    case (Suc k')
    have "(10::nat) \<le> 10 * 10 ^ k'"
      by simp
    also have "\<dots> \<le> n"
      using Suc "1.prems" by simp
    finally have ge: "\<not> n < 10"
      by simp
    from Suc "1.prems" have "10 ^ k' \<le> n div 10"
      by (simp add: less_eq_div_iff_mult_less_eq mult.commute)
    then have "k' < length (dec (n div 10))"
      using "1.IH" [OF ge] by simp
    with ge Suc show ?thesis
      by (subst dec.simps) simp
  qed
qed

lemma fmt05d_length:
  assumes "0 \<le> i"
  shows "i < 100000 \<Longrightarrow> length (fmt05d i) = 5" and "100000 \<le> i \<Longrightarrow> 5 < length (fmt05d i)"
proof -
  assume "i < 100000"
  with assms have "nat i < 10 ^ 5" by simp
  then have "length (dec (nat i)) \<le> 5"
    by (intro dec_length_le) simp_all
  with assms show "length (fmt05d i) = 5"
    by (simp add: fmt05d_def zero_pad_def)
next
  assume "100000 \<le> i"
  then have "10 ^ 5 \<le> nat i" by simp
  then have "5 < length (dec (nat i))"
    by (rule dec_length_gt)
  with assms show "5 < length (fmt05d i)"
    by (simp add: fmt05d_def zero_pad_def)
qed

lemma filter_active_le:
  assumes "\<And>i. k \<le> i \<Longrightarrow> i < length xs \<Longrightarrow> \<not> active (xs ! i)"
  shows "length (filter active xs) \<le> k"
proof -
  have "\<not> active x" if "x \<in> set (drop k xs)" for x
  proof -
    from that obtain j where j: "j < length (drop k xs)" and x: "drop k xs ! j = x"
      by (auto simp: in_set_conv_nth)
    then have "x = xs ! (k + j)" and "k + j < length xs"
      by auto
    with assms [of "k + j"] show ?thesis by simp
  qed
  then have "filter active (drop k xs) = []"
    unfolding filter_empty_conv by blast
  moreover have "filter active xs = filter active (take k xs) @ filter active (drop k xs)"
    by (metis append_take_drop_id filter_append)
  moreover have "length (filter active (take k xs)) \<le> k"
    using length_filter_le [of active "take k xs"] by simp
  ultimately show ?thesis by simp
qed

lemma run_prefix:
  assumes "makedirs_ok e" and "tiff e = Some ps" and "n_frames_ok e"
  shows "run e [Main, Main, Main] =
     Some ((init e)\<lparr>pc := Submit, dir_exists := True, img_open := True, opens := 1,
       total_frames := length ps\<rparr>)"
  using assms by (simp add: run_def tiff2jpeg_def init_def pages_def)

lemma submit_all:
  "pc s = Submit \<Longrightarrow> length (futures s) + m \<le> total_frames s \<Longrightarrow>
     exec e (replicate m Main) s = Some (s\<lparr>futures := futures s @ replicate m Queued\<rparr>)"
proof (induction m arbitrary: s)
  case 0
  then show ?case by simp
next
  case (Suc m)
  let ?s1 = "s\<lparr>futures := futures s @ [Queued]\<rparr>"
  from Suc.prems have st: "tiff2jpeg e s = Some ?s1"
    by (simp add: tiff2jpeg_def)
  from Suc.prems have "exec e (replicate m Main) ?s1 =
      Some (?s1\<lparr>futures := futures ?s1 @ replicate m Queued\<rparr>)"
    by (intro Suc.IH) simp_all
  with st show ?case
    by (simp add: replicate_app_Cons_same)
qed

lemma job_to_save:
  assumes "img_open s" and "lock s = None" and "i < length (futures s)"
    and "futures s ! i = Queued" and "length (filter active (futures s)) < max_workers e"
    and "i < length (pages e)" and "convert_rgb e (pages e ! i) = Some f"
  shows "exec e [Worker i, Worker i, Worker i, Worker i, Worker i] s =
     Some (s\<lparr>cursor := i, lock := None, futures := (futures s)[i := Save f]\<rparr>)"
  using assms by (simp add: save_frame_shared_def set_job_def)

lemma concurrent_saves:
  assumes mk: "makedirs_ok e" and t: "tiff e = Some ps" and nf: "n_frames_ok e"
    and ok: "\<And>i. i < k \<Longrightarrow> convert_rgb e (ps ! i) \<noteq> None"
    and kn: "k \<le> length ps" and kw: "k \<le> max_workers e"
  shows "\<exists>sched s. run e sched = Some s \<and> img_open s \<and> lock s = None \<and>
     length (futures s) = length ps \<and> (\<forall>i<k. \<exists>f. futures s ! i = Save f) \<and>
     (\<forall>i. k \<le> i \<and> i < length ps \<longrightarrow> futures s ! i = Queued)"
  using ok kn kw
proof (induction k)
  case 0
  let ?s0 = "(init e)\<lparr>pc := Submit, dir_exists := True, img_open := True, opens := 1,
       total_frames := length ps\<rparr>"
  have "exec e (replicate (length ps) Main) ?s0 =
      Some (?s0\<lparr>futures := futures ?s0 @ replicate (length ps) Queued\<rparr>)"
    by (intro submit_all) (simp_all add: init_def)
  with run_prefix [OF mk t nf]
  have "run e ([Main, Main, Main] @ replicate (length ps) Main) =
      Some (?s0\<lparr>futures := futures ?s0 @ replicate (length ps) Queued\<rparr>)"
    unfolding run_def by (simp only: exec_append option.case)
  then show ?case
    by (intro exI conjI, assumption) (simp_all add: init_def)
next
  case (Suc k)
  from Suc.prems have "\<And>i. i < k \<Longrightarrow> convert_rgb e (ps ! i) \<noteq> None"
    and "k \<le> length ps" and "k \<le> max_workers e"
    by simp_all
  from Suc.IH [OF this] obtain sched s where r: "run e sched = Some s"
    and o: "img_open s" and l: "lock s = None" and n: "length (futures s) = length ps"
    and sv: "\<And>i. i < k \<Longrightarrow> \<exists>f. futures s ! i = Save f"
    and q: "\<And>i. k \<le> i \<Longrightarrow> i < length ps \<Longrightarrow> futures s ! i = Queued"
    by blast
  from Suc.prems obtain f where f: "convert_rgb e (ps ! k) = Some f"
    by (metis lessI not_None_eq)
  have "length (filter active (futures s)) \<le> k"
    using q n by (intro filter_active_le) simp
  with Suc.prems have fa: "length (filter active (futures s)) < max_workers e"
    by simp
  from Suc.prems n have kl: "k < length (futures s)"
    by simp
  let ?s' = "s\<lparr>cursor := k, lock := None, futures := (futures s)[k := Save f]\<rparr>"
  have "exec e [Worker k, Worker k, Worker k, Worker k, Worker k] s = Some ?s'"
    using o l kl q [of k] fa f t Suc.prems by (intro job_to_save) (simp_all add: pages_def)
  with r have "run e (sched @ [Worker k, Worker k, Worker k, Worker k, Worker k]) = Some ?s'"
    unfolding run_def by (simp only: exec_append option.case)
  moreover have "\<exists>g. futures ?s' ! i = Save g" if "i < Suc k" for i
    using that sv [of i] kl by (cases "i = k") simp_all
  moreover have "futures ?s' ! i = Queued" if "Suc k \<le> i" and "i < length ps" for i
    using that q [of i] by simp
  ultimately show ?case
    using o n by (intro exI [of _ "sched @ [Worker k, Worker k, Worker k, Worker k, Worker k]"]
        exI [of _ ?s']) simp
qed

section \<open>The claims\<close>

text \<open>
  C10. The map from a frame index \<open>i \<ge> 0\<close> to the output path is injective for every
  output folder: two indices with the same path are equal. The padding is a minimum
  width: an index below 100000 prints as exactly five digits, a larger one as more than
  five. Hence two different calls of one run never write to the same path.
\<close>

theorem filename_injective:
  "(0 \<le> i \<and> 0 \<le> j \<and> jpeg_filename d i = jpeg_filename d j \<longrightarrow> i = j) \<and>
   (0 \<le> i \<and> i < 100000 \<longrightarrow> length (fmt05d i) = 5) \<and>
   (100000 \<le> i \<longrightarrow> 5 < length (fmt05d i)) \<and>
   (m \<noteq> n \<longrightarrow> out_path e m \<noteq> out_path e n)"
  using jpeg_filename_inj [of d i j] fmt05d_length [of i] out_path_inj [of e m n]
  by auto

theorem filename_injective_witness:
  "jpeg_filename ''out'' 7 = ''out/00007.jpg'' \<and>
   jpeg_filename ''out'' 100007 = ''out/100007.jpg'' \<and>
   jpeg_filename ''out'' 7 \<noteq> jpeg_filename ''out'' 100007 \<and>
   length (fmt05d 7) = 5 \<and> 5 < length (fmt05d 100007) \<and>
   out_path (demo_env None) 7 \<noteq> out_path (demo_env None) 100007"
proof -
  have a: "jpeg_filename ''out'' 7 = ''out/00007.jpg''"
    by code_simp
  have t: "digit_char 0 = CHR ''0''" "digit_char (Suc 0) = CHR ''1''" "digit_char 7 = CHR ''7''"
    by code_simp+
  have "dec 100007 = ''100007''"
    by (simp add: dec.simps t)
  then have b: "jpeg_filename ''out'' 100007 = ''out/100007.jpg''"
    by (simp add: jpeg_filename_def path_join_def fmt05d_def zero_pad_def)
  have h: "(0::int) \<le> 7" "(7::int) < 100000" "(0::int) \<le> 100007" "(100000::int) \<le> 100007"
    "(7::int) \<noteq> 100007" "(7::nat) \<noteq> 100007"
    by simp_all
  from filename_injective [of 7 100007 "''out''" 7 100007 "demo_env None"] h
  have "jpeg_filename ''out'' 7 \<noteq> jpeg_filename ''out'' 100007" and "length (fmt05d 7) = 5"
    and "out_path (demo_env None) 7 \<noteq> out_path (demo_env None) 100007"
    by auto
  moreover from filename_injective [of 100007 0 "''out''" 0 0 "demo_env None"] h
  have "5 < length (fmt05d 100007)"
    by auto
  ultimately show ?thesis
    using a b by simp
qed

text \<open>
  C1. In every state that any schedule can reach, with any number of frames and any pool
  size, at most one call is inside the \<^verbatim>\<open>with lock\<close> block (seek and decode of the shared
  image), and that call holds the lock; a call that reaches \<^verbatim>\<open>with lock\<close> while the lock
  is held cannot take a step; only the holder of the lock moves the shared cursor. Outside
  the block calls do run side by side: for every \<open>k\<close> up to the number of frames and the
  pool size, when the frames can be counted and the first \<open>k\<close> of them decode, a state is
  reachable in which \<open>k\<close> calls are at \<^verbatim>\<open>frame.save\<close> at once and the lock is free.
\<close>

theorem mutual_exclusion:
  assumes "run e sched = Some s"
  shows "(\<forall>i<length (futures s). \<forall>j<length (futures s).
            in_section (futures s ! i) \<and> in_section (futures s ! j) \<longrightarrow> i = j) \<and>
         (\<forall>i<length (futures s). in_section (futures s ! i) \<longrightarrow> lock s = Some i) \<and>
         (\<forall>i<length (futures s). futures s ! i = Acquire \<and> lock s \<noteq> None \<longrightarrow>
            step e (Worker i) s = None) \<and>
         (\<forall>i s'. step e (Worker i) s = Some s' \<and> cursor s' \<noteq> cursor s \<longrightarrow> lock s = Some i) \<and>
         (k \<le> length (pages e) \<and> k \<le> max_workers e \<and> makedirs_ok e \<and> tiff e \<noteq> None \<and>
          n_frames_ok e \<and> (\<forall>i<k. convert_rgb e (pages e ! i) \<noteq> None) \<longrightarrow>
            (\<exists>sched' s'. run e sched' = Some s' \<and> lock s' = None \<and>
               (\<forall>i<k. \<exists>f. futures s' ! i = Save f)))"
proof -
  from inv_run [OF assms] have lk: "lock_inv s"
    by (simp add: inv_def)
  have a: "i = j" if "i < length (futures s)" "j < length (futures s)"
    "in_section (futures s ! i)" "in_section (futures s ! j)" for i j
    using lock_inv_holder [OF lk that(1,3)] lock_inv_holder [OF lk that(2,4)] by simp
  have b: "lock s = Some i" if "i < length (futures s)" "in_section (futures s ! i)" for i
    using lock_inv_holder [OF lk that] .
  have c: "step e (Worker i) s = None"
    if "i < length (futures s)" "futures s ! i = Acquire" "lock s \<noteq> None" for i
    using that by (simp add: save_frame_shared_def)
  have d: "lock s = Some i" if "step e (Worker i) s = Some s'" "cursor s' \<noteq> cursor s" for i s'
  proof -
    from that(1) have "save_frame_shared e i s = Some s'" by simp
    then show ?thesis
    proof (cases rule: worker_cases)
      case seek_ok
      then show ?thesis using b [of i] by simp
    qed (use that(2) in \<open>simp_all add: set_job_def\<close>)
  qed
  have e: "\<exists>sched' s'. run e sched' = Some s' \<and> lock s' = None \<and>
      (\<forall>i<k. \<exists>f. futures s' ! i = Save f)"
    if "k \<le> length (pages e)" "k \<le> max_workers e" "makedirs_ok e" "tiff e \<noteq> None"
      "\<forall>i<k. convert_rgb e (pages e ! i) \<noteq> None" "n_frames_ok e"
  proof -
    from that(4) obtain ps where ps: "tiff e = Some ps" by auto
    then have "pages e = ps" by (simp add: pages_def)
    with that have "\<And>i. i < k \<Longrightarrow> convert_rgb e (ps ! i) \<noteq> None" and "k \<le> length ps"
      by simp_all
    from concurrent_saves [OF that(3) ps that(6) this that(2)] show ?thesis
      by blast
  qed
  from a b c d e show ?thesis
    by blast
qed

theorem mutual_exclusion_witness:
  "(case run (demo_env (Some [[1], [2]])) (take 9 interleaved) of
      None \<Rightarrow> False
    | Some s \<Rightarrow> futures s = [Convert, Acquire] \<and> lock s = Some 0 \<and>
        step (demo_env (Some [[1], [2]])) (Worker 1) s = None) \<and>
   (\<exists>sched' s'. run (demo_env (Some [[1], [2]])) sched' = Some s' \<and> lock s' = None \<and>
      (\<exists>f. futures s' ! 0 = Save f) \<and> (\<exists>f. futures s' ! 1 = Save f))"
proof -
  let ?e = "demo_env (Some [[1], [2]])"
  have "case run ?e (take 9 interleaved) of None \<Rightarrow> False
    | Some s \<Rightarrow> futures s = [Convert, Acquire] \<and> lock s \<noteq> None"
    by code_simp
  then obtain s where r: "run ?e (take 9 interleaved) = Some s"
    and j: "futures s = [Convert, Acquire]" and l: "lock s \<noteq> None"
    by (auto split: option.splits)
  have h: "(2::nat) \<le> length (pages ?e)" "2 \<le> max_workers ?e" "makedirs_ok ?e"
    "tiff ?e \<noteq> None" "n_frames_ok ?e" "\<forall>i<2. convert_rgb ?e (pages ?e ! i) \<noteq> None"
    by (simp_all add: demo_env_def pages_def less_Suc_eq numeral_2_eq_2)
  note m = mutual_exclusion [OF r, of 2]
  from m j have "lock s = Some 0"
    by simp
  moreover from m j l have "step ?e (Worker 1) s = None"
    by simp
  moreover from m h obtain sched' s' where "run ?e sched' = Some s'" "lock s' = None"
    "\<forall>i<2. \<exists>f. futures s' ! i = Save f"
    by blast
  then have "\<exists>sched' s'. run ?e sched' = Some s' \<and> lock s' = None \<and>
      (\<exists>f. futures s' ! 0 = Save f) \<and> (\<exists>f. futures s' ! 1 = Save f)"
    by (intro exI [of _ sched'] exI [of _ s']) simp
  ultimately show ?thesis
    using r j by simp
qed

text \<open>
  C5. In every reachable state a call that is at \<^verbatim>\<open>img.seek(i)\<close> or at
  \<^verbatim>\<open>img.convert("RGB")\<close> holds the lock, and it still holds it when the decoded frame
  exists (the frame is the decoding of page \<open>i\<close>, the call's own page); a call that is at
  \<^verbatim>\<open>frame.save\<close> does not hold the lock. Step by step: the seek and the decode of a
  call start and end with the lock held by it, and the step that writes the file starts
  and ends with the lock not held by it.
\<close>

theorem decode_locked_save_unlocked:
  assumes "run e sched = Some s" and "i < length (futures s)"
  shows "(futures s ! i = Seek \<or> futures s ! i = Convert \<longrightarrow> lock s = Some i) \<and>
         (\<forall>f. futures s ! i = Release (Inr f) \<longrightarrow>
            lock s = Some i \<and> convert_rgb e (pages e ! i) = Some f) \<and>
         (\<forall>f. futures s ! i = Save f \<longrightarrow>
            lock s \<noteq> Some i \<and> convert_rgb e (pages e ! i) = Some f) \<and>
         (\<forall>s'. step e (Worker i) s = Some s' \<longrightarrow>
            (futures s ! i = Seek \<or> futures s ! i = Convert \<longrightarrow>
               lock s = Some i \<and> lock s' = Some i \<and> files s' = files s) \<and>
            (files s' \<noteq> files s \<longrightarrow>
               (\<exists>f. futures s ! i = Save f) \<and> lock s \<noteq> Some i \<and> lock s' \<noteq> Some i))"
proof -
  note p = inv_parts [OF inv_run [OF assms(1)]]
  note ok = data_inv_job [OF p(3) assms(2)]
  have held: "lock s = Some i" if "in_section (futures s ! i)"
    using lock_inv_holder [OF p(1) assms(2) that] .
  have free: "lock s \<noteq> Some i" if "\<not> in_section (futures s ! i)"
    using lock_inv_held(2) [OF p(1), of i] that by auto
  have a: "futures s ! i = Seek \<or> futures s ! i = Convert \<longrightarrow> lock s = Some i"
    using held by auto
  have b: "\<forall>f. futures s ! i = Release (Inr f) \<longrightarrow>
      lock s = Some i \<and> convert_rgb e (pages e ! i) = Some f"
    using held ok by auto
  have c: "\<forall>f. futures s ! i = Save f \<longrightarrow>
      lock s \<noteq> Some i \<and> convert_rgb e (pages e ! i) = Some f"
    using free ok by auto
  have d: "(futures s ! i = Seek \<or> futures s ! i = Convert \<longrightarrow>
        lock s = Some i \<and> lock s' = Some i \<and> files s' = files s) \<and>
      (files s' \<noteq> files s \<longrightarrow>
        (\<exists>f. futures s ! i = Save f) \<and> lock s \<noteq> Some i \<and> lock s' \<noteq> Some i)"
    if "step e (Worker i) s = Some s'" for s'
  proof -
    from that have "save_frame_shared e i s = Some s'" by simp
    then show ?thesis
    proof (cases rule: worker_cases)
      case (save_ok f b)
      with free show ?thesis by (simp add: set_job_def)
    next
      case (save_part f part)
      with free show ?thesis by (simp add: set_job_def)
    qed (use held in \<open>simp_all add: set_job_def\<close>)
  qed
  from a b c d show ?thesis
    by blast
qed

theorem decode_locked_save_unlocked_witness:
  "(case run (demo_env (Some [[1], [2]])) (take 9 interleaved) of
      None \<Rightarrow> False
    | Some s \<Rightarrow> futures s ! 0 = Convert \<and> lock s = Some 0) \<and>
   (case run (demo_env (Some [[1], [2]])) (take 13 interleaved) of
      None \<Rightarrow> False
    | Some s \<Rightarrow> futures s ! 0 = Save [1] \<and> lock s \<noteq> Some 0 \<and>
        convert_rgb (demo_env (Some [[1], [2]])) (pages (demo_env (Some [[1], [2]])) ! 0) = Some [1])"
proof -
  let ?e = "demo_env (Some [[1], [2]])"
  have "case run ?e (take 9 interleaved) of None \<Rightarrow> False
    | Some s \<Rightarrow> 0 < length (futures s) \<and> futures s ! 0 = Convert"
    by code_simp
  then obtain s where r: "run ?e (take 9 interleaved) = Some s"
    and j: "0 < length (futures s)" "futures s ! 0 = Convert"
    by (auto split: option.splits)
  have "case run ?e (take 13 interleaved) of None \<Rightarrow> False
    | Some s \<Rightarrow> 0 < length (futures s) \<and> futures s ! 0 = Save [1]"
    by code_simp
  then obtain t where r': "run ?e (take 13 interleaved) = Some t"
    and j': "0 < length (futures t)" "futures t ! 0 = Save [1]"
    by (auto split: option.splits)
  from decode_locked_save_unlocked [OF r j(1)] j(2) have "lock s = Some 0"
    by simp
  moreover from decode_locked_save_unlocked [OF r' j'(1)] j'(2)
  have "lock t \<noteq> Some 0 \<and> convert_rgb ?e (pages ?e ! 0) = Some [1]"
    by simp
  ultimately show ?thesis
    using r r' j j' by simp
qed

text \<open>
  C9. A call whose seek or decode raises does not keep the lock: from \<^verbatim>\<open>img.seek(i)\<close> and
  \<^verbatim>\<open>img.convert("RGB")\<close> every step, failing or not, stays inside the \<^verbatim>\<open>with lock\<close>
  block until its exit; the exit with an exception frees the lock and ends the call as
  failed; in no reachable state does a failed call hold the lock. So the lock is held only
  by a call inside the block, a call waiting at \<^verbatim>\<open>with lock\<close> can step whenever no call is
  inside, and when no thread can step every call has finished.
\<close>

theorem failing_page_releases_lock:
  assumes "run e sched = Some s" and "i < length (futures s)"
  shows "(\<forall>x. futures s ! i = Failed x \<longrightarrow> lock s \<noteq> Some i) \<and>
         (\<forall>s'. (futures s ! i = Seek \<or> futures s ! i = Convert) \<and> step e (Worker i) s = Some s' \<longrightarrow>
            futures s' ! i = Convert \<or> (\<exists>r. futures s' ! i = Release r)) \<and>
         (\<forall>x. futures s ! i = Release (Inl x) \<longrightarrow>
            (\<exists>s'. step e (Worker i) s = Some s' \<and> lock s' = None \<and> futures s' ! i = Failed x)) \<and>
         (futures s ! i = Acquire \<and> (\<forall>j<length (futures s). \<not> in_section (futures s ! j)) \<longrightarrow>
            step e (Worker i) s \<noteq> None) \<and>
         (0 < max_workers e \<and> halted e s \<longrightarrow> list_all finished (futures s))"
proof -
  note v = inv_run [OF assms(1)]
  note p = inv_parts [OF v]
  have a: "lock s \<noteq> Some i" if "futures s ! i = Failed x" for x
    using lock_inv_held(2) [OF p(1), of i] that by auto
  have b: "futures s' ! i = Convert \<or> (\<exists>r. futures s' ! i = Release r)"
    if "futures s ! i = Seek \<or> futures s ! i = Convert" "step e (Worker i) s = Some s'" for s'
  proof -
    from that(2) have "save_frame_shared e i s = Some s'" by simp
    then show ?thesis
      by (cases rule: worker_cases) (use that(1) in \<open>simp_all add: set_job_def\<close>)
  qed
  have c: "\<exists>s'. step e (Worker i) s = Some s' \<and> lock s' = None \<and> futures s' ! i = Failed x"
    if "futures s ! i = Release (Inl x)" for x
    using that assms(2) by (simp add: save_frame_shared_def set_job_def)
  have d: "step e (Worker i) s \<noteq> None"
    if "futures s ! i = Acquire" "\<forall>j<length (futures s). \<not> in_section (futures s ! j)"
  proof -
    have "lock s = None"
    proof (cases "lock s")
      case (Some j)
      from lock_inv_held [OF p(1) Some] that(2) show ?thesis by simp
    qed simp
    with that(1) assms(2) show ?thesis
      by (simp add: save_frame_shared_def)
  qed
  have f: "list_all finished (futures s)" if "0 < max_workers e" "halted e s"
  proof (cases "pc s")
    case Returned
    from returned_facts(2) [OF p(2) Returned] show ?thesis .
  next
    case (Raised x)
    from raised_facts(1) [OF p(2) Raised] show ?thesis by simp
  qed (use halted_ended [OF v that] in simp_all)
  from a b c d f show ?thesis
    by blast
qed

theorem failing_page_releases_lock_witness:
  "(case run (demo_env (Some [[1], [2], [3], [], [5]])) (take 37 fault_schedule) of
      None \<Rightarrow> False
    | Some s \<Rightarrow> futures s ! 3 = Release (Inl PageReadError) \<and>
        (\<exists>s'. step (demo_env (Some [[1], [2], [3], [], [5]])) (Worker 3) s = Some s' \<and>
           lock s' = None \<and> futures s' ! 3 = Failed PageReadError)) \<and>
   (case run (demo_env (Some [[1], [2], [3], [], [5]])) (take 39 fault_schedule) of
      None \<Rightarrow> False
    | Some s \<Rightarrow> futures s ! 3 = Failed PageReadError \<and> futures s ! 4 = Acquire \<and>
        lock s \<noteq> Some 3 \<and> step (demo_env (Some [[1], [2], [3], [], [5]])) (Worker 4) s \<noteq> None)"
proof -
  let ?e = "demo_env (Some [[1], [2], [3], [], [5]])"
  have "case run ?e (take 37 fault_schedule) of None \<Rightarrow> False
    | Some s \<Rightarrow> 3 < length (futures s) \<and> futures s ! 3 = Release (Inl PageReadError)"
    by code_simp
  then obtain s where r: "run ?e (take 37 fault_schedule) = Some s"
    and j: "3 < length (futures s)" "futures s ! 3 = Release (Inl PageReadError)"
    by (auto split: option.splits)
  have "case run ?e (take 39 fault_schedule) of None \<Rightarrow> False
    | Some s \<Rightarrow> futures s = [Done, Done, Done, Failed PageReadError, Acquire]"
    by code_simp
  then obtain t where r': "run ?e (take 39 fault_schedule) = Some t"
    and j': "futures t = [Done, Done, Done, Failed PageReadError, Acquire]"
    by (auto split: option.splits)
  from failing_page_releases_lock [OF r j(1)] j(2)
  have "\<exists>s'. step ?e (Worker 3) s = Some s' \<and> lock s' = None \<and> futures s' ! 3 = Failed PageReadError"
    by simp
  moreover from failing_page_releases_lock [OF r', of 3] j' have "lock t \<noteq> Some 3"
    by simp
  moreover from failing_page_releases_lock [OF r', of 4] j' have "step ?e (Worker 4) t \<noteq> None"
    by (simp add: less_Suc_eq numeral_eq_Suc del: step.simps)
  ultimately show ?thesis
    using r r' j j' by simp
qed

lemma main_inv_counters:
  assumes "main_inv e s"
  shows "opens s \<le> 1" and "closes s \<le> opens s" and "img_open s = (opens s = 1 \<and> closes s = 0)"
    and "closes s = 1 \<Longrightarrow> \<not> img_open s" and "closes s = 1 \<Longrightarrow> list_all finished (futures s)"
proof -
  show "opens s \<le> 1"
    using assms by (cases "pc s") (simp_all add: main_inv_def started_def split: if_splits)
  show "closes s \<le> opens s"
    using assms by (cases "pc s") (simp_all add: main_inv_def started_def split: if_splits)
  show "img_open s = (opens s = 1 \<and> closes s = 0)"
    using assms by (cases "pc s") (simp_all add: main_inv_def started_def split: if_splits)
  show "\<not> img_open s" if "closes s = 1"
    using assms that by (cases "pc s") (simp_all add: main_inv_def started_def split: if_splits)
  show "list_all finished (futures s)" if "closes s = 1"
    using assms that by (cases "pc s") (simp_all add: main_inv_def started_def split: if_splits)
qed

lemma never_closed_error:
  assumes "inv e s" and "i < length (futures s)"
  shows "futures s ! i \<noteq> Release (Inl HandleClosed)" and "futures s ! i \<noteq> Failed HandleClosed"
  using data_inv_job [OF inv_parts(3) [OF assms(1)] assms(2)]
  by (auto simp: job_end_def split: option.splits sum.splits if_splits)

text \<open>
  C6. In every reachable state the image has been opened at most once and closed at most
  as often as opened; as soon as one call has been submitted the image has been opened
  and its frame count read; the image is closed only when every submitted call has
  finished, so a call that has not finished finds it open and no call ever fails on a
  closed image. When the output folder can be made and the container opens, a run that
  has come to its end has opened the image exactly once and closed it exactly once, and
  every submitted call has finished as done or failed: one call per frame when the
  frames could be counted, and no call at all when counting them raised.
\<close>

theorem open_once_close_after_jobs:
  assumes "run e sched = Some s"
  shows "opens s \<le> 1 \<and> closes s \<le> opens s \<and>
         (futures s \<noteq> [] \<longrightarrow> opens s = 1 \<and> total_frames s = length (pages e)) \<and>
         (closes s = 1 \<longrightarrow> \<not> img_open s \<and> list_all finished (futures s)) \<and>
         (\<forall>i<length (futures s). \<not> finished (futures s ! i) \<longrightarrow> img_open s) \<and>
         (\<forall>i<length (futures s).
            futures s ! i \<noteq> Release (Inl HandleClosed) \<and> futures s ! i \<noteq> Failed HandleClosed) \<and>
         (0 < max_workers e \<and> halted e s \<and> makedirs_ok e \<and> tiff e \<noteq> None \<longrightarrow>
            opens s = 1 \<and> closes s = 1 \<and> \<not> img_open s \<and> list_all finished (futures s) \<and>
            (n_frames_ok e \<longrightarrow> length (futures s) = length (pages e)) \<and>
            (\<not> n_frames_ok e \<longrightarrow> futures s = []))"
proof -
  note v = inv_run [OF assms]
  note p = inv_parts [OF v]
  note c = main_inv_counters [OF p(2)]
  have a: "opens s = 1 \<and> total_frames s = length (pages e)" if "futures s \<noteq> []"
  proof -
    from that have "0 < length (futures s)" by simp
    from main_inv_jobs(5,6) [OF p(2) this] show ?thesis by simp
  qed
  have b: "\<not> img_open s \<and> list_all finished (futures s)" if "closes s = 1"
    using c(4,5) [OF that] by simp
  have d: "img_open s" if "i < length (futures s)" "\<not> finished (futures s ! i)" for i
    using main_inv_open [OF p(2) that] .
  have f: "futures s ! i \<noteq> Release (Inl HandleClosed) \<and> futures s ! i \<noteq> Failed HandleClosed"
    if "i < length (futures s)" for i
    using never_closed_error [OF v that] by simp
  have g: "opens s = 1 \<and> closes s = 1 \<and> \<not> img_open s \<and> list_all finished (futures s) \<and>
      (n_frames_ok e \<longrightarrow> length (futures s) = length (pages e)) \<and>
      (\<not> n_frames_ok e \<longrightarrow> futures s = [])"
    if "0 < max_workers e" "halted e s" "makedirs_ok e" "tiff e \<noteq> None"
  proof (cases "n_frames_ok e")
    case True
    with halted_outcome [OF v that(1,2)] that(3,4) have r: "pc s = Returned"
      by simp
    from returned_facts [OF p(2) r] True show ?thesis by simp
  next
    case False
    with halted_outcome [OF v that(1,2)] that(3,4) have r: "pc s = Raised FrameCountError"
      by simp
    from raised_facts(1,2,3,8) [OF p(2) r] that(3,4) False show ?thesis by simp
  qed
  from c(1,2) a b d f g show ?thesis
    by blast
qed

theorem open_once_close_after_jobs_witness:
  "(case run (demo_env (Some [[1], [2]])) interleaved of
      None \<Rightarrow> False
    | Some s \<Rightarrow> halted (demo_env (Some [[1], [2]])) s \<and> opens s = 1 \<and> closes s = 1 \<and>
        \<not> img_open s \<and> length (futures s) = 2 \<and> list_all finished (futures s)) \<and>
   (case run (demo_env (Some [[1], [2]])) (take 13 interleaved) of
      None \<Rightarrow> False
    | Some s \<Rightarrow> futures s ! 1 = Seek \<and> img_open s \<and> opens s = 1 \<and> closes s = 0) \<and>
   (case run (demo_env (Some [[1], [2]])\<lparr>n_frames_ok := False\<rparr>) [Main, Main, Main] of
      None \<Rightarrow> False
    | Some s \<Rightarrow> halted (demo_env (Some [[1], [2]])\<lparr>n_frames_ok := False\<rparr>) s \<and> opens s = 1 \<and>
        closes s = 1 \<and> \<not> img_open s \<and> futures s = [])"
proof -
  let ?e = "demo_env (Some [[1], [2]])"
  let ?n = "demo_env (Some [[1], [2]])\<lparr>n_frames_ok := False\<rparr>"
  have "case run ?e interleaved of None \<Rightarrow> False | Some s \<Rightarrow> halted ?e s"
    by code_simp
  then obtain s where r: "run ?e interleaved = Some s" and h: "halted ?e s"
    by (auto split: option.splits)
  have "case run ?e (take 13 interleaved) of None \<Rightarrow> False
    | Some s \<Rightarrow> 1 < length (futures s) \<and> futures s ! 1 = Seek \<and> closes s = 0"
    by code_simp
  then obtain t where r': "run ?e (take 13 interleaved) = Some t"
    and j: "1 < length (futures t)" "futures t ! 1 = Seek" "closes t = 0"
    by (auto split: option.splits)
  have "case run ?n [Main, Main, Main] of None \<Rightarrow> False | Some s \<Rightarrow> halted ?n s"
    by code_simp
  then obtain u where r'': "run ?n [Main, Main, Main] = Some u" and h'': "halted ?n u"
    by (auto split: option.splits)
  have e: "0 < max_workers ?e" "makedirs_ok ?e" "tiff ?e \<noteq> None" "length (pages ?e) = 2"
    "n_frames_ok ?e"
    and n: "0 < max_workers ?n" "makedirs_ok ?n" "tiff ?n \<noteq> None" "\<not> n_frames_ok ?n"
    by (simp_all add: demo_env_def pages_def)
  from open_once_close_after_jobs [OF r] h e
  have "opens s = 1 \<and> closes s = 1 \<and> \<not> img_open s \<and> length (futures s) = 2 \<and>
      list_all finished (futures s)"
    by simp
  moreover from open_once_close_after_jobs [OF r'] j have "img_open t \<and> opens t = 1"
    by auto
  moreover from open_once_close_after_jobs [OF r''] h'' n
  have "opens u = 1 \<and> closes u = 1 \<and> \<not> img_open u \<and> futures u = []"
    by simp
  ultimately show ?thesis
    using r r' r'' h h'' j by simp
qed

text \<open>
  C7, as the claim states it, fails: no statement of \<^verbatim>\<open>tiff2jpeg\<close> asks whether the input
  is a TIFF container. An input that is not one, but that \<^verbatim>\<open>Image.open\<close> opens and whose
  frames can be counted (a one-frame image of another format), raises nothing: the call
  returns and the frame is written.
\<close>

theorem not_a_container_counterexample:
  "\<not> is_tiff (demo_env (Some [[1]])\<lparr>is_tiff := False\<rparr>) \<and>
   map_option (halted (demo_env (Some [[1]])\<lparr>is_tiff := False\<rparr>))
     (run (demo_env (Some [[1]])\<lparr>is_tiff := False\<rparr>) (sequential 1)) = Some True \<and>
   map_option result (run (demo_env (Some [[1]])\<lparr>is_tiff := False\<rparr>) (sequential 1)) =
     Some (Some (Inr ())) \<and>
   map_option futures (run (demo_env (Some [[1]])\<lparr>is_tiff := False\<rparr>) (sequential 1)) =
     Some [Done]"
  by code_simp

text \<open>
  C7, amended. Let the output folder be makable. When \<^verbatim>\<open>Image.open\<close> raises (the path is
  missing or unreadable, or holds nothing that opens as an image) or \<^verbatim>\<open>img.n_frames\<close>
  raises on the opened image, no schedule ever submits a call or changes a file, no run
  has more than \<open>8 N + 7\<close> steps (\<open>N\<close> the number of frames of what opened, 0 when
  nothing opened), every run can be continued to its end, and at its end \<^verbatim>\<open>tiff2jpeg\<close>
  has raised that error (of the open, or of the frame count), the output folder exists,
  and the image, if it was opened, is closed again. When the input opens
  and its frames can be counted, \<^verbatim>\<open>tiff2jpeg\<close> returns at the end of every run, whether
  or not the input is a TIFF container.
\<close>

theorem open_error_before_jobs:
  assumes "run e sched = Some s" and "makedirs_ok e"
  shows "(tiff e = None \<or> \<not> n_frames_ok e \<longrightarrow>
            length sched \<le> 8 * length (pages e) + 7 \<and>
            (\<exists>more s'. run e (sched @ more) = Some s' \<and> halted e s') \<and>
            futures s = [] \<and> files s = files0 e \<and>
            (halted e s \<longrightarrow>
               result s = Some (Inl (if tiff e = None then OpenError else FrameCountError)) \<and>
               dir_exists s \<and> \<not> img_open s \<and> closes s = opens s)) \<and>
         (tiff e \<noteq> None \<and> n_frames_ok e \<and> 0 < max_workers e \<and> halted e s \<longrightarrow>
            result s = Some (Inr ()))"
proof -
  note v = inv_run [OF assms(1)]
  note p = inv_parts [OF v]
  have bad: "length sched \<le> 8 * length (pages e) + 7 \<and>
      (\<exists>more s'. run e (sched @ more) = Some s' \<and> halted e s') \<and>
      futures s = [] \<and> files s = files0 e \<and>
      (halted e s \<longrightarrow>
         result s = Some (Inl (if tiff e = None then OpenError else FrameCountError)) \<and>
         dir_exists s \<and> \<not> img_open s \<and> closes s = opens s)"
    if c: "tiff e = None \<or> \<not> n_frames_ok e"
  proof -
    have early: "pc s = MakeDirs \<or> pc s = Open \<or> pc s = NFrames \<or> (\<exists>x. pc s = Raised x)"
      using p(2) c by (cases "pc s") (auto simp: main_inv_def started_def)
    then have j: "futures s = []"
      using p(2) by (auto simp: main_inv_def)
    have f: "files s = files0 e"
      using no_jobs_files [OF p(3) j] .
    have h: "result s = Some (Inl (if tiff e = None then OpenError else FrameCountError)) \<and>
        dir_exists s \<and> \<not> img_open s \<and> closes s = opens s"
      if "halted e s"
    proof -
      from that have "tiff2jpeg e s = None"
        by (simp add: halted_iff)
      from main_blocked [OF this] early obtain x where x: "pc s = Raised x"
        by auto
      from raised_facts(2,3,5,6) [OF p(2) x] assms(2) x show ?thesis
        by (simp add: result_def)
    qed
    from run_bound [OF assms(1)] have "length sched \<le> 8 * length (pages e) + 7"
      by simp
    with run_completes [OF assms(1)] j f h show ?thesis
      by blast
  qed
  have good: "result s = Some (Inr ())"
    if "tiff e \<noteq> None" "n_frames_ok e" "0 < max_workers e" "halted e s"
    using halted_outcome [OF v that(3,4)] assms(2) that(1,2) by (simp add: result_def)
  from bad good show ?thesis
    by blast
qed

theorem open_error_before_jobs_witness:
  "(case run (demo_env None) [Main, Main] of
      None \<Rightarrow> False
    | Some s \<Rightarrow> halted (demo_env None) s \<and> result s = Some (Inl OpenError) \<and> dir_exists s \<and>
        futures s = [] \<and> files s = Map.empty) \<and>
   (case run (demo_env (Some [[1], [2]])\<lparr>n_frames_ok := False\<rparr>) [Main, Main, Main] of
      None \<Rightarrow> False
    | Some s \<Rightarrow> halted (demo_env (Some [[1], [2]])\<lparr>n_frames_ok := False\<rparr>) s \<and>
        result s = Some (Inl FrameCountError) \<and> dir_exists s \<and> \<not> img_open s \<and>
        futures s = [] \<and> files s = Map.empty) \<and>
   (case run (demo_env (Some [[1]])\<lparr>is_tiff := False\<rparr>) (sequential 1) of
      None \<Rightarrow> False
    | Some s \<Rightarrow> halted (demo_env (Some [[1]])\<lparr>is_tiff := False\<rparr>) s \<and>
        result s = Some (Inr ()))"
proof -
  let ?a = "demo_env None"
  let ?b = "demo_env (Some [[1], [2]])\<lparr>n_frames_ok := False\<rparr>"
  let ?c = "demo_env (Some [[1]])\<lparr>is_tiff := False\<rparr>"
  have "case run ?a [Main, Main] of None \<Rightarrow> False | Some s \<Rightarrow> halted ?a s"
    by code_simp
  then obtain s where r: "run ?a [Main, Main] = Some s" and h: "halted ?a s"
    by (auto split: option.splits)
  have "case run ?b [Main, Main, Main] of None \<Rightarrow> False | Some s \<Rightarrow> halted ?b s"
    by code_simp
  then obtain t where r': "run ?b [Main, Main, Main] = Some t" and h': "halted ?b t"
    by (auto split: option.splits)
  have "case run ?c (sequential 1) of None \<Rightarrow> False | Some s \<Rightarrow> halted ?c s"
    by code_simp
  then obtain u where r'': "run ?c (sequential 1) = Some u" and h'': "halted ?c u"
    by (auto split: option.splits)
  have a: "makedirs_ok ?a" "tiff ?a = None" "files0 ?a = Map.empty"
    and b: "makedirs_ok ?b" "tiff ?b \<noteq> None" "\<not> n_frames_ok ?b" "files0 ?b = Map.empty"
    and c: "makedirs_ok ?c" "tiff ?c \<noteq> None" "n_frames_ok ?c" "0 < max_workers ?c"
    by (simp_all add: demo_env_def)
  from open_error_before_jobs [OF r a(1)] a(2,3) h
  have "result s = Some (Inl OpenError) \<and> dir_exists s \<and> futures s = [] \<and> files s = Map.empty"
    by simp
  moreover from open_error_before_jobs [OF r' b(1)] b(2,3,4) h'
  have "result t = Some (Inl FrameCountError) \<and> dir_exists t \<and> \<not> img_open t \<and>
      futures t = [] \<and> files t = Map.empty"
    by simp
  moreover from open_error_before_jobs [OF r'' c(1)] c(2,3,4) h''
  have "result u = Some (Inr ())"
    by simp
  ultimately show ?thesis
    using r r' r'' h h' h'' by simp
qed

lemma out_paths_card: "card (out_path e ` {..<n}) = n"
proof -
  have "inj_on (out_path e) {..<n}"
    by (rule inj_onI) (rule out_path_inj)
  then show ?thesis
    by (simp add: card_image)
qed

text \<open>
  C4. Let the output folder be makable, the container open and its \<open>N \<ge> 0\<close> frames be
  counted, every frame decode and encode, and every output file be writable. Then no
  schedule submits more than \<open>N\<close> calls, no run has more than \<open>8 N + 7\<close> steps, every run can be continued to its end,
  and at the end of every run
  \<^verbatim>\<open>tiff2jpeg\<close> has returned, exactly \<open>N\<close> calls were submitted, call \<open>i\<close> is done and the
  file \<^verbatim>\<open>{i:05d}.jpg\<close> in the output folder holds the JPEG of frame \<open>i\<close>, for every
  \<open>i < N\<close>, whatever the order of completion; these are \<open>N\<close> different paths, and every
  other path holds what it held before. With \<open>N = 0\<close> no file changes and the call
  returns.
\<close>

theorem one_file_per_frame:
  assumes "run e sched = Some s" and "0 < max_workers e" and "makedirs_ok e"
    and "tiff e = Some ps" and "\<forall>i<length ps. succeeds e i" and "n_frames_ok e"
  shows "length sched \<le> 8 * length ps + 7 \<and>
         (\<exists>more s'. run e (sched @ more) = Some s' \<and> halted e s') \<and>
         length (futures s) \<le> length ps \<and>
         (halted e s \<longrightarrow>
            result s = Some (Inr ()) \<and> length (futures s) = length ps \<and>
            (\<forall>i<length ps. futures s ! i = Done \<and>
               out_path e i = path_join (output_folder e) (fmt05d (int i) @ ''.jpg'') \<and>
               files s (out_path e i) = page_jpeg e i \<and> page_jpeg e i \<noteq> None) \<and>
            card (out_path e ` {..<length ps}) = length ps \<and>
            (\<forall>p. p \<notin> out_path e ` {..<length ps} \<longrightarrow> files s p = files0 e p) \<and>
            (ps = [] \<longrightarrow> files s = files0 e))"
proof -
  note v = inv_run [OF assms(1)]
  note p = inv_parts [OF v]
  from assms(4) have pg: "pages e = ps"
    by (simp add: pages_def)
  have le: "length (futures s) \<le> length ps"
  proof (cases "futures s = []")
    case False
    then have "0 < length (futures s)" by simp
    from main_inv_jobs(1) [OF p(2) this] pg show ?thesis by simp
  qed simp
  have fin: "result s = Some (Inr ()) \<and> length (futures s) = length ps \<and>
      (\<forall>i<length ps. futures s ! i = Done \<and>
         out_path e i = path_join (output_folder e) (fmt05d (int i) @ ''.jpg'') \<and>
         files s (out_path e i) = page_jpeg e i \<and> page_jpeg e i \<noteq> None) \<and>
      card (out_path e ` {..<length ps}) = length ps \<and>
      (\<forall>p. p \<notin> out_path e ` {..<length ps} \<longrightarrow> files s p = files0 e p) \<and>
      (ps = [] \<longrightarrow> files s = files0 e)"
    if h: "halted e s"
  proof -
    from halted_outcome [OF v assms(2) h] assms(3,4,6) have r: "pc s = Returned"
      by simp
    note rf = returned_facts [OF p(2) r]
    have a: "futures s ! i = Done" "files s (out_path e i) = page_jpeg e i" "page_jpeg e i \<noteq> None"
      if "i < length ps" for i
    proof -
      from that assms(5) have su: "succeeds e i" by simp
      from that pg have i: "i < length (pages e)" by simp
      from final_job [OF v r i] su show "futures s ! i = Done"
        by (simp add: job_end_Done)
      from final_files_own [OF v r i] su show "files s (out_path e i) = page_jpeg e i"
        by (simp add: saved_succeeds)
      from su show "page_jpeg e i \<noteq> None" by (simp add: succeeds_def)
    qed
    have b: "files s q = files0 e q" if "q \<notin> out_path e ` {..<length ps}" for q
      using that pg by (intro final_files_other [OF v r]) auto
    have c: "files s = files0 e" if "ps = []"
      using b that by (intro ext) simp
    from r rf(1) pg a b c out_paths_card [of e "length ps"] show ?thesis
      by (simp add: result_def out_path_def jpeg_filename_def)
  qed
  from run_bound [OF assms(1)] pg have "length sched \<le> 8 * length ps + 7"
    by simp
  with run_completes [OF assms(1)] le fin show ?thesis
    by blast
qed

theorem one_file_per_frame_witness:
  "(case run (demo_env (Some [[1], [2]])) interleaved of
      None \<Rightarrow> False
    | Some s \<Rightarrow> halted (demo_env (Some [[1], [2]])) s \<and> result s = Some (Inr ()) \<and>
        futures s = [Done, Done] \<and> files s ''out/00000.jpg'' = Some [255, 216, 1] \<and>
        files s ''out/00001.jpg'' = Some [255, 216, 2] \<and> files s ''out/00002.jpg'' = None) \<and>
   (case run (demo_env (Some [[1]])) (sequential 1) of
      None \<Rightarrow> False
    | Some s \<Rightarrow> halted (demo_env (Some [[1]])) s \<and> result s = Some (Inr ()) \<and>
        futures s = [Done] \<and> files s ''out/00000.jpg'' = Some [255, 216, 1] \<and>
        files s ''out/00001.jpg'' = None) \<and>
   (case run (demo_env (Some [])) (sequential 0) of
      None \<Rightarrow> False
    | Some s \<Rightarrow> halted (demo_env (Some [])) s \<and> result s = Some (Inr ()) \<and> futures s = [] \<and>
        files s = Map.empty)"
proof -
  let ?e2 = "demo_env (Some [[1], [2]])"
  let ?e1 = "demo_env (Some [[1]])"
  let ?e0 = "demo_env (Some [])"
  have "case run ?e2 interleaved of None \<Rightarrow> False | Some s \<Rightarrow> halted ?e2 s"
    by code_simp
  then obtain s2 where r2: "run ?e2 interleaved = Some s2" and h2: "halted ?e2 s2"
    by (auto split: option.splits)
  have "case run ?e1 (sequential 1) of None \<Rightarrow> False | Some s \<Rightarrow> halted ?e1 s"
    by code_simp
  then obtain s1 where r1: "run ?e1 (sequential 1) = Some s1" and h1: "halted ?e1 s1"
    by (auto split: option.splits)
  have "case run ?e0 (sequential 0) of None \<Rightarrow> False | Some s \<Rightarrow> halted ?e0 s"
    by code_simp
  then obtain s0 where r0: "run ?e0 (sequential 0) = Some s0" and h0: "halted ?e0 s0"
    by (auto split: option.splits)
  have w: "0 < max_workers (demo_env t)" "makedirs_ok (demo_env t)" "tiff (demo_env t) = t"
    "files0 (demo_env t) = Map.empty" "n_frames_ok (demo_env t)" for t
    by (simp_all add: demo_env_def)
  have su2: "\<forall>i<length [[1], [2::nat]]. succeeds ?e2 i"
    and su1: "\<forall>i<length [[1::nat]]. succeeds ?e1 i"
    and su0: "\<forall>i<length ([] :: raw_page list). succeeds ?e0 i"
    by (simp_all add: succeeds_def page_jpeg_def pages_def demo_env_def less_Suc_eq)
  have pj: "page_jpeg ?e2 0 = Some [255, 216, 1]" "page_jpeg ?e2 1 = Some [255, 216, 2]"
    "page_jpeg ?e1 0 = Some [255, 216, 1]"
    by (simp_all add: page_jpeg_def pages_def demo_env_def)
  have "jpeg_filename ''out'' 0 = ''out/00000.jpg''" "jpeg_filename ''out'' 1 = ''out/00001.jpg''"
    by code_simp+
  then have op: "out_path (demo_env t) 0 = ''out/00000.jpg''"
    "out_path (demo_env t) 1 = ''out/00001.jpg''" for t
    by (simp_all add: out_path_def demo_env_def)
  have np: "''out/00002.jpg'' \<notin> out_path ?e2 ` {..<2}" "''out/00001.jpg'' \<notin> out_path ?e1 ` {..<1}"
    using op [of "Some [[1], [2]]"] op [of "Some [[1]]"]
    by (auto simp: less_Suc_eq numeral_2_eq_2)
  have l2: "length [[1], [2::nat]] = 2" and l1: "length [[1::nat]] = 1"
    by simp_all
  from one_file_per_frame [OF r2 w(1,2,3) su2 w(5), unfolded l2] h2
  have a2: "result s2 = Some (Inr ())" "length (futures s2) = 2"
    "\<forall>i<2. futures s2 ! i = Done \<and> files s2 (out_path ?e2 i) = page_jpeg ?e2 i"
    "\<forall>p. p \<notin> out_path ?e2 ` {..<2} \<longrightarrow> files s2 p = files0 ?e2 p"
    by blast+
  from one_file_per_frame [OF r1 w(1,2,3) su1 w(5), unfolded l1] h1
  have a1: "result s1 = Some (Inr ())" "length (futures s1) = 1"
    "\<forall>i<1. futures s1 ! i = Done \<and> files s1 (out_path ?e1 i) = page_jpeg ?e1 i"
    "\<forall>p. p \<notin> out_path ?e1 ` {..<1} \<longrightarrow> files s1 p = files0 ?e1 p"
    by blast+
  from one_file_per_frame [OF r0 w(1,2,3) su0 w(5)] h0
  have "result s0 = Some (Inr ())" "length (futures s0) = length ([] :: raw_page list)"
    "files s0 = files0 ?e0"
    by blast+
  then have a0: "result s0 = Some (Inr ())" "futures s0 = []" "files s0 = Map.empty"
    by (simp_all add: w)
  from a2(2,3) have j2: "futures s2 = [Done, Done]"
    by (intro nth_equalityI) (auto simp: less_Suc_eq numeral_2_eq_2)
  from a1(2,3) have j1: "futures s1 = [Done]"
    by (intro nth_equalityI) auto
  from a2(3) pj op [of "Some [[1], [2]]"]
  have f2: "files s2 ''out/00000.jpg'' = Some [255, 216, 1]"
    "files s2 ''out/00001.jpg'' = Some [255, 216, 2]"
    by (auto simp: less_Suc_eq numeral_2_eq_2)
  from a1(3) pj op [of "Some [[1]]"]
  have f1: "files s1 ''out/00000.jpg'' = Some [255, 216, 1]"
    by auto
  from a2(4) np(1) have g2: "files s2 ''out/00002.jpg'' = None"
    by (simp add: w)
  from a1(4) np(2) have g1: "files s1 ''out/00001.jpg'' = None"
    by (simp add: w)
  from r2 h2 a2(1) j2 f2 g2 r1 h1 a1(1) j1 f1 g1 r0 h0 a0 show ?thesis
    by simp
qed

text \<open>
  C3, as the claim states it, fails: \<^verbatim>\<open>tiff2jpeg\<close> has no \<^verbatim>\<open>return\<close> statement and never
  reads a future, so what it returns is the same whether a frame failed or not. With
  frame 3 of 5 undecodable the run ends with call 3 failed and the plain return value;
  with five good frames it ends with call 3 done and the same return value.
\<close>

theorem summary_counterexample:
  "map_option futures (run (demo_env (Some [[1], [2], [3], [], [5]])) fault_schedule) =
     Some [Done, Done, Done, Failed PageReadError, Done] \<and>
   map_option (halted (demo_env (Some [[1], [2], [3], [], [5]])))
     (run (demo_env (Some [[1], [2], [3], [], [5]])) fault_schedule) = Some True \<and>
   map_option result (run (demo_env (Some [[1], [2], [3], [], [5]])) fault_schedule) =
     Some (Some (Inr ())) \<and>
   map_option futures (run (demo_env (Some [[1], [2], [3], [4], [5]])) (sequential 5)) =
     Some [Done, Done, Done, Done, Done] \<and>
   map_option (halted (demo_env (Some [[1], [2], [3], [4], [5]])))
     (run (demo_env (Some [[1], [2], [3], [4], [5]])) (sequential 5)) = Some True \<and>
   map_option result (run (demo_env (Some [[1], [2], [3], [4], [5]])) (sequential 5)) =
     Some (Some (Inr ()))"
  by code_simp

text \<open>
  C3, amended. When the output folder can be made, the container opens and its \<open>N\<close>
  frames can be counted, no run has more than \<open>8 N + 7\<close> steps, every run can be continued
  to its end, and at the end \<^verbatim>\<open>tiff2jpeg\<close> has returned without a value, one call per
  frame was submitted and has finished, and the progress bar stands at the number of
  frames. A frame that decodes, encodes and can be written is done and its file holds its
  JPEG; any other frame has failed, and its failure has stopped no other call. Call \<open>i\<close>
  ends as \<open>job_end\<close> says and leaves on its path what \<open>saved\<close> says: a frame that does not
  decode leaves its path as it was; a \<^verbatim>\<open>frame.save\<close> that cannot open the path leaves it
  as it was; a \<^verbatim>\<open>frame.save\<close> that raises after it opened the path leaves no file where
  there was none and the bytes written so far in place of a file that was there. The
  failures are recorded nowhere in what \<^verbatim>\<open>tiff2jpeg\<close> returns.
\<close>

theorem failures_isolated:
  assumes "run e sched = Some s" and "0 < max_workers e" and "makedirs_ok e"
    and "tiff e = Some ps" and "n_frames_ok e"
  shows "length sched \<le> 8 * length ps + 7 \<and>
         (\<exists>more s'. run e (sched @ more) = Some s' \<and> halted e s') \<and>
         (halted e s \<longrightarrow>
            result s = Some (Inr ()) \<and> length (futures s) = length ps \<and>
            pbar s = length ps \<and>
            (\<forall>i<length ps.
               futures s ! i = job_end e i \<and>
               files s (out_path e i) = saved e i (files0 e (out_path e i)) \<and>
               (succeeds e i \<longrightarrow>
                  futures s ! i = Done \<and> files s (out_path e i) = page_jpeg e i \<and>
                  page_jpeg e i \<noteq> None) \<and>
               (\<not> succeeds e i \<longrightarrow> (\<exists>x. futures s ! i = Failed x)) \<and>
               (convert_rgb e (ps ! i) = None \<longrightarrow>
                  futures s ! i = Failed PageReadError \<and>
                  files s (out_path e i) = files0 e (out_path e i))))"
proof -
  note v = inv_run [OF assms(1)]
  note p = inv_parts [OF v]
  from assms(4) have pg: "pages e = ps"
    by (simp add: pages_def)
  have fin: "result s = Some (Inr ()) \<and> length (futures s) = length ps \<and>
      pbar s = length ps \<and>
      (\<forall>i<length ps.
         futures s ! i = job_end e i \<and>
         files s (out_path e i) = saved e i (files0 e (out_path e i)) \<and>
         (succeeds e i \<longrightarrow>
            futures s ! i = Done \<and> files s (out_path e i) = page_jpeg e i \<and>
            page_jpeg e i \<noteq> None) \<and>
         (\<not> succeeds e i \<longrightarrow> (\<exists>x. futures s ! i = Failed x)) \<and>
         (convert_rgb e (ps ! i) = None \<longrightarrow>
            futures s ! i = Failed PageReadError \<and>
            files s (out_path e i) = files0 e (out_path e i)))"
    if h: "halted e s"
  proof -
    from halted_outcome [OF v assms(2) h] assms(3,4,5) have r: "pc s = Returned"
      by simp
    note rf = returned_facts [OF p(2) r]
    have a: "futures s ! i = job_end e i \<and>
        files s (out_path e i) = saved e i (files0 e (out_path e i)) \<and>
        (succeeds e i \<longrightarrow>
           futures s ! i = Done \<and> files s (out_path e i) = page_jpeg e i \<and>
           page_jpeg e i \<noteq> None) \<and>
        (\<not> succeeds e i \<longrightarrow> (\<exists>x. futures s ! i = Failed x)) \<and>
        (convert_rgb e (ps ! i) = None \<longrightarrow>
           futures s ! i = Failed PageReadError \<and>
           files s (out_path e i) = files0 e (out_path e i))"
      if "i < length ps" for i
    proof -
      from that pg have i: "i < length (pages e)" by simp
      note j = final_job [OF v r i]
      note f = final_files_own [OF v r i]
      have "futures s ! i = Done \<and> files s (out_path e i) = page_jpeg e i \<and>
          page_jpeg e i \<noteq> None" if "succeeds e i"
        using that j f by (simp add: job_end_Done saved_succeeds succeeds_def)
      moreover have "\<exists>x. futures s ! i = Failed x" if "\<not> succeeds e i"
      proof -
        from that have "job_end e i \<noteq> Done"
          by (simp add: job_end_Done)
        with job_end_finished [of e i] j show ?thesis
          by (cases "job_end e i") simp_all
      qed
      moreover have "futures s ! i = Failed PageReadError \<and>
          files s (out_path e i) = files0 e (out_path e i)"
        if "convert_rgb e (ps ! i) = None"
        using that j f pg by (simp add: job_end_decode saved_unchanged)
      ultimately show ?thesis
        using j f by blast
    qed
    from r have "result s = Some (Inr ())"
      by (simp add: result_def)
    moreover from rf(1,3) pg have "length (futures s) = length ps" and "pbar s = length ps"
      by simp_all
    ultimately show ?thesis
      using a by blast
  qed
  from run_bound [OF assms(1)] pg have "length sched \<le> 8 * length ps + 7"
    by simp
  with run_completes [OF assms(1)] fin show ?thesis
    by blast
qed

theorem failures_isolated_witness:
  "(case run (demo_env (Some [[1], [2], [3], [], [5]])) fault_schedule of
      None \<Rightarrow> False
    | Some s \<Rightarrow> halted (demo_env (Some [[1], [2], [3], [], [5]])) s \<and>
        result s = Some (Inr ()) \<and> pbar s = 5 \<and>
        futures s = [Done, Done, Done, Failed PageReadError, Done] \<and>
        files s ''out/00002.jpg'' = Some [255, 216, 3] \<and> files s ''out/00003.jpg'' = None \<and>
        files s ''out/00004.jpg'' = Some [255, 216, 5]) \<and>
   (case run (demo_env (Some [[1], [2]])
            \<lparr>encode_jpeg := (\<lambda>f. if f = [2] then Inl [] else Inr (255 # 216 # f)),
             files0 := [''out/00001.jpg'' \<mapsto> [9, 9]]\<rparr>) (sequential 2) of
      None \<Rightarrow> False
    | Some s \<Rightarrow> result s = Some (Inr ()) \<and> futures s ! 0 = Done \<and>
        futures s ! 1 = Failed EncodeError \<and> files s ''out/00000.jpg'' = Some [255, 216, 1] \<and>
        files s ''out/00001.jpg'' = Some [])"
proof -
  let ?e = "demo_env (Some [[1], [2], [3], [], [5]])"
  let ?g = "demo_env (Some [[1], [2]])
      \<lparr>encode_jpeg := (\<lambda>f. if f = [2] then Inl [] else Inr (255 # 216 # f)),
       files0 := [''out/00001.jpg'' \<mapsto> [9, 9]]\<rparr>"
  have "case run ?e fault_schedule of None \<Rightarrow> False | Some s \<Rightarrow> halted ?e s"
    by code_simp
  then obtain s where r: "run ?e fault_schedule = Some s" and h: "halted ?e s"
    by (auto split: option.splits)
  have "case run ?g (sequential 2) of None \<Rightarrow> False | Some s \<Rightarrow> halted ?g s"
    by code_simp
  then obtain u where r': "run ?g (sequential 2) = Some u" and h': "halted ?g u"
    by (auto split: option.splits)
  have w: "0 < max_workers ?e" "makedirs_ok ?e" "tiff ?e = Some [[1], [2], [3], [], [5]]"
    "n_frames_ok ?e" "files0 ?e = Map.empty"
    and w': "0 < max_workers ?g" "makedirs_ok ?g" "tiff ?g = Some [[1], [2]]" "n_frames_ok ?g"
    by (simp_all add: demo_env_def)
  have l: "length [[1], [2], [3], [], [5::nat]] = 5" and l': "length [[1], [2::nat]] = 2"
    by simp_all
  have su: "succeeds ?e 0" "succeeds ?e 1" "succeeds ?e 2" "\<not> succeeds ?e 3" "succeeds ?e 4"
    by code_simp+
  have pj: "page_jpeg ?e 2 = Some [255, 216, 3]" "page_jpeg ?e 4 = Some [255, 216, 5]"
    by code_simp+
  have cv: "convert_rgb ?e ([[1], [2], [3], [], [5]] ! 3) = None"
    by code_simp
  have op: "out_path ?e 2 = ''out/00002.jpg''" "out_path ?e 3 = ''out/00003.jpg''"
    "out_path ?e 4 = ''out/00004.jpg''"
    by code_simp+
  have g: "job_end ?g 0 = Done" "job_end ?g 1 = Failed EncodeError"
    "saved ?g 0 (files0 ?g (out_path ?g 0)) = Some [255, 216, 1]"
    "saved ?g 1 (files0 ?g (out_path ?g 1)) = Some []"
    "out_path ?g 0 = ''out/00000.jpg''" "out_path ?g 1 = ''out/00001.jpg''"
    by code_simp+
  from failures_isolated [OF r w(1,2,3,4), unfolded l] h
  have a: "result s = Some (Inr ())" "length (futures s) = 5" "pbar s = 5"
    and b: "\<And>i. i < 5 \<Longrightarrow> succeeds ?e i \<Longrightarrow>
        futures s ! i = Done \<and> files s (out_path ?e i) = page_jpeg ?e i"
    and c: "\<And>i. i < 5 \<Longrightarrow> convert_rgb ?e ([[1], [2], [3], [], [5]] ! i) = None \<Longrightarrow>
        futures s ! i = Failed PageReadError \<and>
        files s (out_path ?e i) = files0 ?e (out_path ?e i)"
    by blast+
  from b [of 0] b [of 1] b [of 2] c [of 3] b [of 4] su cv
  have j: "futures s ! 0 = Done" "futures s ! 1 = Done" "futures s ! 2 = Done"
    "futures s ! 3 = Failed PageReadError" "futures s ! 4 = Done"
    by simp_all
  have "futures s = [Done, Done, Done, Failed PageReadError, Done]"
  proof (rule nth_equalityI)
    show "length (futures s) = length [Done, Done, Done, Failed PageReadError, Done]"
      using a(2) by simp
  next
    fix i
    assume "i < length (futures s)"
    with a(2) have "i = 0 \<or> i = 1 \<or> i = 2 \<or> i = 3 \<or> i = 4"
      by auto
    with j show "futures s ! i = [Done, Done, Done, Failed PageReadError, Done] ! i"
      by auto
  qed
  moreover from b [of 2] c [of 3] b [of 4] su cv pj op w(5)
  have "files s ''out/00002.jpg'' = Some [255, 216, 3]" "files s ''out/00003.jpg'' = None"
    "files s ''out/00004.jpg'' = Some [255, 216, 5]"
    by simp_all
  moreover from failures_isolated [OF r' w', unfolded l'] h'
  have a': "result u = Some (Inr ())"
    and d: "\<And>i. i < 2 \<Longrightarrow> futures u ! i = job_end ?g i \<and>
        files u (out_path ?g i) = saved ?g i (files0 ?g (out_path ?g i))"
    by blast+
  from d [of 0] d [of 1] g
  have "futures u ! 0 = Done" "futures u ! 1 = Failed EncodeError"
    "files u ''out/00000.jpg'' = Some [255, 216, 1]" "files u ''out/00001.jpg'' = Some []"
    by simp_all
  ultimately show ?thesis
    using r h a r' a' by simp
qed

lemma expected_files_rerun:
  "expected_files (e\<lparr>max_workers := w, files0 := expected_files e, dir0 := d\<rparr>) = expected_files e"
proof
  fix p
  let ?e' = "e\<lparr>max_workers := w, files0 := expected_files e, dir0 := d\<rparr>"
  have same: "saved ?e' = saved e" "page_of ?e' = page_of e"
    by (simp_all add: fun_eq_iff saved_def page_of_def out_path_def pages_def
        split: option.splits sum.splits)
  show "expected_files ?e' p = expected_files e p"
  proof (cases "makedirs_ok e \<and> n_frames_ok e")
    case True
    show ?thesis
    proof (cases "page_of e p")
      case None
      with True show ?thesis
        by (simp add: expected_files_def [of ?e'] same)
    next
      case (Some i)
      with True have "expected_files e p = saved e i (files0 e p)"
        by (simp add: expected_files_def)
      with True Some show ?thesis
        by (simp add: expected_files_def [of ?e'] same saved_idem)
    qed
  next
    case False
    then show ?thesis
      by (auto simp: expected_files_def [of ?e'])
  qed
qed

lemma expected_files_pool:
  "expected_files (e\<lparr>max_workers := w\<rparr>) = expected_files e"
proof
  fix p
  have "saved (e\<lparr>max_workers := w\<rparr>) = saved e"
    "page_of (e\<lparr>max_workers := w\<rparr>) = page_of e"
    by (simp_all add: fun_eq_iff saved_def page_of_def out_path_def pages_def
        split: option.splits sum.splits)
  then show "expected_files (e\<lparr>max_workers := w\<rparr>) p = expected_files e p"
    by (simp add: expected_files_def split: option.splits)
qed

text \<open>
  C8. The files at the end of a run are a function of the input alone
  (\<open>expected_files\<close>: the path of every frame holds what \<open>saved\<close> says, which is the JPEG
  of the frame when the frame decodes, encodes and can be written; every other path
  holds what it held before), for every schedule and every pool size. So a run from the
  same input with another pool size and another schedule ends with the same files, and a
  second run, started on the files the first one left, ends with exactly those files
  again: every frame's file has the same content and no other file appears. Both runs
  end in the same way.
\<close>

theorem rerun_same_files:
  assumes "run e sched = Some s" and "halted e s" and "0 < max_workers e"
    and "run (e\<lparr>max_workers := w\<rparr>) sched2 = Some s2"
    and "halted (e\<lparr>max_workers := w\<rparr>) s2" and "0 < w"
    and "run (e\<lparr>max_workers := w', files0 := files s, dir0 := dir_exists s\<rparr>) sched' = Some s'"
    and "halted (e\<lparr>max_workers := w', files0 := files s, dir0 := dir_exists s\<rparr>) s'"
    and "0 < w'"
  shows "files s = expected_files e \<and> files s2 = files s \<and> result s2 = result s \<and>
         files s' = files s \<and> result s' = result s"
proof -
  let ?e2 = "e\<lparr>max_workers := w\<rparr>"
  let ?e' = "e\<lparr>max_workers := w', files0 := files s, dir0 := dir_exists s\<rparr>"
  note v = inv_run [OF assms(1)]
  note v2 = inv_run [OF assms(4)]
  note v' = inv_run [OF assms(7)]
  have f: "files s = expected_files e"
    using final_files [OF v assms(3,2)] .
  have "files s2 = expected_files ?e2"
    using assms(6) by (intro final_files [OF v2 _ assms(5)]) simp
  then have f2: "files s2 = files s"
    by (simp add: f expected_files_pool)
  have "files s' = expected_files ?e'"
    using assms(9) by (intro final_files [OF v' _ assms(8)]) simp
  then have f': "files s' = files s"
    by (simp add: f expected_files_rerun)
  let ?end = "if \<not> makedirs_ok e then Raised OutputDirError
      else if tiff e = None then Raised OpenError
      else if n_frames_ok e then Returned else Raised FrameCountError"
  have "0 < max_workers ?e2" and "0 < max_workers ?e'"
    using assms(6,9) by simp_all
  from halted_outcome [OF v assms(3,2)] halted_outcome [OF v2 this(1) assms(5)]
    halted_outcome [OF v' this(2) assms(8)]
  have "pc s = ?end" and "pc s2 = ?end" and "pc s' = ?end"
    by simp_all
  then have "result s2 = result s" and "result s' = result s"
    by (simp_all add: result_def)
  with f f2 f' show ?thesis
    by simp
qed

theorem rerun_same_files_witness:
  "case run (demo_env (Some [[1], [2]])
          \<lparr>encode_jpeg := (\<lambda>f. if f = [2] then Inl [] else Inr (255 # 216 # f)),
           files0 := [''out/00001.jpg'' \<mapsto> [9, 9]]\<rparr>) interleaved of
     None \<Rightarrow> False
   | Some s \<Rightarrow>
       halted (demo_env (Some [[1], [2]])
          \<lparr>encode_jpeg := (\<lambda>f. if f = [2] then Inl [] else Inr (255 # 216 # f)),
           files0 := [''out/00001.jpg'' \<mapsto> [9, 9]]\<rparr>) s \<and>
       files s ''out/00000.jpg'' = Some [255, 216, 1] \<and> files s ''out/00001.jpg'' = Some [] \<and>
       (case run (demo_env (Some [[1], [2]])
               \<lparr>encode_jpeg := (\<lambda>f. if f = [2] then Inl [] else Inr (255 # 216 # f)),
                files0 := [''out/00001.jpg'' \<mapsto> [9, 9]], max_workers := 1\<rparr>) (sequential 2) of
          None \<Rightarrow> False
        | Some s2 \<Rightarrow> files s2 = files s \<and> result s2 = result s) \<and>
       (case run (demo_env (Some [[1], [2]])
               \<lparr>encode_jpeg := (\<lambda>f. if f = [2] then Inl [] else Inr (255 # 216 # f)),
                files0 := [''out/00001.jpg'' \<mapsto> [9, 9]],
                max_workers := 1, files0 := files s, dir0 := dir_exists s\<rparr>) (sequential 2) of
          None \<Rightarrow> False
        | Some s' \<Rightarrow> files s' = files s \<and> result s' = result s)"
proof -
  let ?e = "demo_env (Some [[1], [2]])
      \<lparr>encode_jpeg := (\<lambda>f. if f = [2] then Inl [] else Inr (255 # 216 # f)),
       files0 := [''out/00001.jpg'' \<mapsto> [9, 9]]\<rparr>"
  have "case run ?e interleaved of
     None \<Rightarrow> False
   | Some s \<Rightarrow> halted ?e s \<and>
       files s ''out/00000.jpg'' = Some [255, 216, 1] \<and> files s ''out/00001.jpg'' = Some [] \<and>
       (case run (?e\<lparr>max_workers := 1\<rparr>) (sequential 2) of
          None \<Rightarrow> False
        | Some s2 \<Rightarrow> halted (?e\<lparr>max_workers := 1\<rparr>) s2) \<and>
       (case run (?e\<lparr>max_workers := 1, files0 := files s, dir0 := dir_exists s\<rparr>)
               (sequential 2) of
          None \<Rightarrow> False
        | Some s' \<Rightarrow>
            halted (?e\<lparr>max_workers := 1, files0 := files s, dir0 := dir_exists s\<rparr>) s')"
    by code_simp
  then obtain s s2 s' where r: "run ?e interleaved = Some s" and h: "halted ?e s"
    and fs: "files s ''out/00000.jpg'' = Some [255, 216, 1]" "files s ''out/00001.jpg'' = Some []"
    and r2: "run (?e\<lparr>max_workers := 1\<rparr>) (sequential 2) = Some s2"
    and h2: "halted (?e\<lparr>max_workers := 1\<rparr>) s2"
    and r': "run (?e\<lparr>max_workers := 1, files0 := files s, dir0 := dir_exists s\<rparr>)
        (sequential 2) = Some s'"
    and h': "halted (?e\<lparr>max_workers := 1, files0 := files s, dir0 := dir_exists s\<rparr>) s'"
    by (auto split: option.splits)
  have w: "0 < max_workers ?e" "(0::nat) < 1"
    by (simp_all add: demo_env_def)
  from rerun_same_files [OF r h w(1) r2 h2 w(2) r' h' w(2)] r h fs r2 h2 r' h' show ?thesis
    by simp
qed

text \<open>
  C2 fails on the code. The loop \<^verbatim>\<open>for _ in futures: pbar.update(1)\<close> does not wait for
  anything: with one frame, the main thread alone takes six steps and the bar stands at
  1 while the only call is still in the queue and no call has finished.
\<close>

theorem progress_runs_ahead:
  "map_option pbar (run (demo_env (Some [[1]])) [Main, Main, Main, Main, Main, Main]) = Some 1 \<and>
   map_option futures (run (demo_env (Some [[1]])) [Main, Main, Main, Main, Main, Main]) =
     Some [Queued] \<and>
   map_option completed (run (demo_env (Some [[1]])) [Main, Main, Main, Main, Main, Main]) =
     Some 0 \<and>
   map_option pc (run (demo_env (Some [[1]])) [Main, Main, Main, Main, Main, Main]) =
     Some (Update 1)"
  by code_simp

end
